theory Spec2Isabelle
  imports Main
begin

section \<open>Strings and character classes\<close>

text \<open>
  Python strings are modelled as lists of \<^typ>\<open>char\<close>, one \<^typ>\<open>char\<close> per code point,
  for the code points 0 to 255. The character classes below are the ones Python's
  \<^verbatim>\<open>re\<close> module and \<^verbatim>\<open>str.strip\<close> use on such code points.
\<close>

definition is_space :: "char \<Rightarrow> bool" where
  \<comment> \<open>\<^verbatim>\<open>\s\<close> and \<^verbatim>\<open>str.isspace\<close>: 9-13, 28-32, 0x85, 0xA0\<close>
  "is_space c = (let n = of_char c :: nat in
     (9 \<le> n \<and> n \<le> 13) \<or> (28 \<le> n \<and> n \<le> 32) \<or> n = 133 \<or> n = 160)"

definition is_digit :: "char \<Rightarrow> bool" where
  \<comment> \<open>\<^verbatim>\<open>\d\<close>: the decimal digits\<close>
  "is_digit c = (let n = of_char c :: nat in 48 \<le> n \<and> n \<le> 57)"

definition is_word :: "char \<Rightarrow> bool" where
  \<comment> \<open>\<^verbatim>\<open>\w\<close>: alphanumeric code points and the underscore\<close>
  "is_word c = (let n = of_char c :: nat in
     (48 \<le> n \<and> n \<le> 57) \<or> (65 \<le> n \<and> n \<le> 90) \<or> n = 95 \<or> (97 \<le> n \<and> n \<le> 122)
     \<or> n = 170 \<or> n = 178 \<or> n = 179 \<or> n = 181 \<or> n = 185 \<or> n = 186
     \<or> (188 \<le> n \<and> n \<le> 190) \<or> (192 \<le> n \<and> n \<le> 214) \<or> (216 \<le> n \<and> n \<le> 246)
     \<or> 248 \<le> n)"

definition newline :: char where
  "newline = CHR 0x0A"

definition not_space :: "char \<Rightarrow> bool" where
  \<comment> \<open>\<^verbatim>\<open>\S\<close>\<close>
  "not_space c = (\<not> is_space c)"

definition any_char :: "char \<Rightarrow> bool" where
  \<comment> \<open>\<^verbatim>\<open>.\<close> without DOTALL: anything but a line feed\<close>
  "any_char c = (c \<noteq> newline)"

definition not_star :: "char \<Rightarrow> bool" where
  \<comment> \<open>\<^verbatim>\<open>[^\*]\<close>\<close>
  "not_star c = (c \<noteq> CHR ''*'')"

definition not_lbracket :: "char \<Rightarrow> bool" where
  \<comment> \<open>\<^verbatim>\<open>[^\[]\<close>\<close>
  "not_lbracket c = (c \<noteq> CHR ''['')"

definition star_or_amp :: "char \<Rightarrow> bool" where
  \<comment> \<open>\<^verbatim>\<open>[\*&]\<close>\<close>
  "star_or_amp c = (c = CHR ''*'' \<or> c = CHR ''&'')"

definition strip :: "string \<Rightarrow> string" where
  \<comment> \<open>\<^verbatim>\<open>str.strip()\<close>\<close>
  "strip s = rev (dropWhile is_space (rev (dropWhile is_space s)))"

definition startswith :: "string \<Rightarrow> string \<Rightarrow> bool" where
  "startswith s p = (take (length p) s = p)"

section \<open>Regular expressions with backtracking\<close>

text \<open>
  The patterns of the source use literals, character classes, greedy repetition of a
  character class, optional and capturing groups, alternatives, \<^verbatim>\<open>\b\<close>, \<^verbatim>\<open>^\<close> and
  \<^verbatim>\<open>$\<close>. A matcher state is the character before the current position (\<open>None\<close> at
  the start of the string), the rest of the string, and the groups captured so far.
  \<open>matches\<close> lists the states a pattern can end in, in the order a backtracking matcher
  tries them: the first one is the match Python reports.
\<close>

datatype rx =
    Lit char
  | Cls "char \<Rightarrow> bool"
  | Star "char \<Rightarrow> bool"
  | Plus "char \<Rightarrow> bool"
  | Seq rx rx
  | Alt rx rx
  | Opt rx
  | Grp nat rx
  | WordB
  | Bol
  | Eol

type_synonym caps = "(nat \<times> string) list"
type_synonym mstate = "char option \<times> string \<times> caps"

fun many :: "(char \<Rightarrow> bool) \<Rightarrow> char option \<Rightarrow> string \<Rightarrow> (char option \<times> string) list" where
  "many p c [] = [(c, [])]"
| "many p c (x # xs) = (if p x then many p (Some x) xs @ [(c, x # xs)] else [(c, x # xs)])"

definition word_at :: "char option \<Rightarrow> bool" where
  "word_at c = (case c of None \<Rightarrow> False | Some x \<Rightarrow> is_word x)"

definition next_char :: "string \<Rightarrow> char option" where
  "next_char s = (case s of [] \<Rightarrow> None | x # _ \<Rightarrow> Some x)"

fun matches :: "rx \<Rightarrow> mstate \<Rightarrow> mstate list" where
  "matches (Lit a) (c, s, g) =
     (case s of [] \<Rightarrow> [] | x # xs \<Rightarrow> if x = a then [(Some x, xs, g)] else [])"
| "matches (Cls p) (c, s, g) =
     (case s of [] \<Rightarrow> [] | x # xs \<Rightarrow> if p x then [(Some x, xs, g)] else [])"
| "matches (Star p) (c, s, g) = map (\<lambda>(c', s'). (c', s', g)) (many p c s)"
| "matches (Plus p) (c, s, g) = map (\<lambda>(c', s'). (c', s', g)) (butlast (many p c s))"
| "matches (Seq a b) st = concat (map (matches b) (matches a st))"
| "matches (Alt a b) st = matches a st @ matches b st"
| "matches (Opt a) st = matches a st @ [st]"
| "matches (Grp n a) (c, s, g) =
     map (\<lambda>(c', s', g'). (c', s', (n, take (length s - length s') s) # g')) (matches a (c, s, g))"
| "matches WordB (c, s, g) = (if word_at c \<noteq> word_at (next_char s) then [(c, s, g)] else [])"
| "matches Bol (c, s, g) = (if c = None then [(c, s, g)] else [])"
| "matches Eol (c, s, g) = (if s = [] \<or> s = [newline] then [(c, s, g)] else [])"

definition seq :: "rx list \<Rightarrow> rx" where
  "seq rs = foldr Seq (butlast rs) (last rs)"

definition lit :: "string \<Rightarrow> rx" where
  "lit s = seq (map Lit s)"

definition re_match :: "rx \<Rightarrow> string \<Rightarrow> caps option" where
  \<comment> \<open>\<^verbatim>\<open>re.match(pattern, string)\<close>: the groups of the first match at position 0\<close>
  "re_match r s = (case matches r (None, s, []) of [] \<Rightarrow> None | (c, s', g) # _ \<Rightarrow> Some g)"

definition group :: "caps \<Rightarrow> nat \<Rightarrow> string" where
  \<comment> \<open>\<^verbatim>\<open>m.group(n)\<close> for a group that took part in the match\<close>
  "group g n = (case map_of g n of Some x \<Rightarrow> x | None \<Rightarrow> [])"

function re_sub_from :: "rx \<Rightarrow> string \<Rightarrow> char option \<Rightarrow> string \<Rightarrow> string" where
  "re_sub_from r repl c s =
     (case matches r (c, s, []) of
        (c', s', g) # _ \<Rightarrow>
          if length s' < length s then repl @ re_sub_from r repl c' s'
          else (case s of [] \<Rightarrow> repl | x # xs \<Rightarrow> repl @ x # re_sub_from r repl (Some x) xs)
      | [] \<Rightarrow> (case s of [] \<Rightarrow> [] | x # xs \<Rightarrow> x # re_sub_from r repl (Some x) xs))"
  by pat_completeness auto
termination
  by (relation "measure (\<lambda>(r, repl, c, s). length s)") auto

definition re_sub :: "rx \<Rightarrow> string \<Rightarrow> string \<Rightarrow> string" where
  \<comment> \<open>\<^verbatim>\<open>re.sub(pattern, repl, string)\<close> with a literal replacement\<close>
  "re_sub r repl s = re_sub_from r repl None s"


section \<open>Exceptions\<close>

text \<open>
  The exceptions the modelled code can raise. A function that can raise returns a value
  of type \<open>py_error + 'a\<close>, the exception on the left.
\<close>

datatype py_error = IndexError | RecursionError

section \<open>The type translator\<close>

text \<open>The patterns of \<^verbatim>\<open>translate_type\<close>, in the order the source uses them.\<close>

definition rx_const_pre :: rx where  \<comment> \<open>\<^verbatim>\<open>\bconst\s+\<close>\<close>
  "rx_const_pre = seq [WordB, lit ''const'', Plus is_space]"

definition rx_const_post :: rx where  \<comment> \<open>\<^verbatim>\<open>\s+const\b\<close>\<close>
  "rx_const_post = seq [Plus is_space, lit ''const'', WordB]"

definition rx_struct :: rx where  \<comment> \<open>\<^verbatim>\<open>\bstruct\s+\<close>\<close>
  "rx_struct = seq [WordB, lit ''struct'', Plus is_space]"

definition rx_enum :: rx where  \<comment> \<open>\<^verbatim>\<open>\benum\s+\<close>\<close>
  "rx_enum = seq [WordB, lit ''enum'', Plus is_space]"

definition rx_union :: rx where  \<comment> \<open>\<^verbatim>\<open>\bunion\s+\<close>\<close>
  "rx_union = seq [WordB, lit ''union'', Plus is_space]"

definition rx_width :: "string \<Rightarrow> rx" where  \<comment> \<open>\<^verbatim>\<open>8_t\b\<close>, \<^verbatim>\<open>16_t\b\<close>, \<^verbatim>\<open>32_t\b\<close>, \<^verbatim>\<open>64_t\b\<close>\<close>
  "rx_width w = seq [lit (w @ ''_t''), WordB]"

definition rx_unsigned :: rx where  \<comment> \<open>\<^verbatim>\<open>\bunsigned\s+\<close>\<close>
  "rx_unsigned = seq [WordB, lit ''unsigned'', Plus is_space]"

definition rx_char_p :: rx where  \<comment> \<open>\<^verbatim>\<open>^\s*(?:const\s+)?char\s*\*\s*$\<close>\<close>
  "rx_char_p = seq [Bol, Star is_space, Opt (seq [lit ''const'', Plus is_space]), lit ''char'',
     Star is_space, Lit (CHR ''*''), Star is_space, Eol]"

definition rx_long_long :: rx where  \<comment> \<open>\<^verbatim>\<open>\blong\s+long\b\<close>\<close>
  "rx_long_long = seq [WordB, lit ''long'', Plus is_space, lit ''long'', WordB]"

definition rx_primitive :: rx where  \<comment> \<open>\<^verbatim>\<open>^(float|u?int|double|u?char|u?short|u?long)\<close>\<close>
  "rx_primitive = seq [Bol, Grp 1
     (Alt (lit ''float'') (Alt (Seq (Opt (Lit (CHR ''u''))) (lit ''int'')) (Alt (lit ''double'')
     (Alt (Seq (Opt (Lit (CHR ''u''))) (lit ''char'')) (Alt (Seq (Opt (Lit (CHR ''u''))) (lit ''short''))
     (Seq (Opt (Lit (CHR ''u''))) (lit ''long'')))))))]"

definition rx_VR :: rx where  \<comment> \<open>\<^verbatim>\<open>\bVR_\<close>\<close>
  "rx_VR = seq [WordB, lit ''VR_'']"

definition rx_pointer :: rx where  \<comment> \<open>\<^verbatim>\<open>^([^\*]+\S)\s*[\*&](.*)$\<close>\<close>
  "rx_pointer = seq [Bol, Grp 1 (Seq (Plus not_star) (Cls not_space)), Star is_space,
     Cls star_or_amp, Grp 2 (Star any_char), Eol]"

definition rx_ptr :: rx where  \<comment> \<open>\<^verbatim>\<open>^([^\*]+)ptr(?:_t)?(.*)$\<close>\<close>
  "rx_ptr = seq [Bol, Grp 1 (Plus not_star), lit ''ptr'', Opt (lit ''_t''),
     Grp 2 (Star any_char), Eol]"

definition rx_bool :: rx where  \<comment> \<open>\<^verbatim>\<open>\bbool\b\<close>\<close>
  "rx_bool = seq [WordB, lit ''bool'', WordB]"

definition rx_array :: rx where  \<comment> \<open>\<^verbatim>\<open>^([^\[]+\S)\s*\[(\d+)\](.*)$\<close>\<close>
  "rx_array = seq [Bol, Grp 1 (Seq (Plus not_lbracket) (Cls not_space)), Star is_space,
     Lit (CHR ''[''), Grp 2 (Plus is_digit), Lit (CHR '']''), Grp 3 (Star any_char), Eol]"

definition strip_keywords :: "string \<Rightarrow> string" where
  \<comment> \<open>lines 466 to 471 of \<^verbatim>\<open>translate_type\<close>\<close>
  "strip_keywords type_name =
    (let result = strip type_name;
         result = re_sub rx_const_pre [] result;
         result = re_sub rx_const_post [] result;
         result = re_sub rx_struct [] result;
         result = re_sub rx_enum [] result
     in re_sub rx_union [] result)"

definition implicit_int :: "string \<Rightarrow> string" where
  \<comment> \<open>lines 473 and 474\<close>
  "implicit_int result = (if result = ''unsigned'' then ''unsigned int'' else result)"

definition char_p_rule :: "string \<Rightarrow> string" where
  \<comment> \<open>lines 481 and 482\<close>
  "char_p_rule result = (if re_match rx_char_p result \<noteq> None then ''c_char_p'' else result)"

definition primitive_rule :: "string \<Rightarrow> string" where
  \<comment> \<open>lines 485 and 486\<close>
  "primitive_rule result = (if re_match rx_primitive result \<noteq> None then ''c_'' @ result else result)"

definition abbreviate :: "string \<Rightarrow> string" where
  \<comment> \<open>lines 476 to 488\<close>
  "abbreviate result0 =
    (let result = re_sub (rx_width ''8'') ''8'' result0;
         result = re_sub (rx_width ''16'') ''16'' result;
         result = re_sub (rx_width ''32'') ''32'' result;
         result = re_sub (rx_width ''64'') ''64'' result;
         result = re_sub rx_unsigned ''u'' result;
         result = char_p_rule result;
         result = re_sub rx_long_long ''longlong'' result;
         result = primitive_rule result
     in re_sub rx_VR [] result)"

definition canonical_spelling :: "string \<Rightarrow> string" where
  \<comment> \<open>lines 466 to 488: the rewrites before the pointer loop\<close>
  "canonical_spelling type_name = abbreviate (implicit_int (strip_keywords type_name))"

definition finish_spelling :: "string \<Rightarrow> string" where
  \<comment> \<open>lines 503 to 511 of \<^verbatim>\<open>translate_type\<close>: the rewrites after the two loops\<close>
  "finish_spelling r =
    (let result = (if r = ''void'' then ''None'' else r);
         result = (if result = ''POINTER(None)'' then ''c_void_p'' else result);
         result = re_sub rx_bool ''openvr_bool'' result
     in if startswith result ''vr::'' then drop 4 result else result)"

text \<open>
  \<^verbatim>\<open>translate_type(type_name, bracket)\<close> calls itself inside two \<^verbatim>\<open>while m:\<close> loops
  and once more for an array. Nothing in the source bounds the loops or the depth of the
  recursion. \<open>translate_fuel\<close> is the function on a call stack without a limit: it
  counts calls and loop iterations down from a bound, every call and every loop iteration
  takes one unit, and \<open>None\<close> says the bound was too small. The two loops have the same
  body and differ in the pattern only. \<open>translate_type\<close> is the value returned on a
  stack that is deep enough; the interpreter's limit on the depth of the stack is the
  subject of \<open>translate_stack\<close> below.
\<close>

fun translate_fuel :: "nat \<Rightarrow> string \<Rightarrow> bool \<Rightarrow> string option"
  and rewrite_loop :: "nat \<Rightarrow> rx \<Rightarrow> string \<Rightarrow> string option" where
  "translate_fuel 0 type_name bracket = None"
| "translate_fuel (Suc n) type_name bracket =
     (case rewrite_loop n rx_pointer (canonical_spelling type_name) of
        None \<Rightarrow> None
      | Some r1 \<Rightarrow>
          (case rewrite_loop n rx_ptr r1 of
             None \<Rightarrow> None
           | Some r2 \<Rightarrow>
               (let result = finish_spelling r2 in
                case re_match rx_array result of
                  None \<Rightarrow> Some result
                | Some m \<Rightarrow>
                    (case translate_fuel n (group m 1 @ group m 3) True of
                       None \<Rightarrow> None
                     | Some t \<Rightarrow>
                         (let result = t @ '' * '' @ group m 2
                          in Some (if bracket then ''('' @ result @ '')'' else result))))))"
| "rewrite_loop 0 r result = None"
| "rewrite_loop (Suc n) r result =
     (case re_match r result of
        None \<Rightarrow> Some result
      | Some m \<Rightarrow>
          (case translate_fuel n (group m 1) False of
             None \<Rightarrow> None
           | Some pointee_type \<Rightarrow>
               rewrite_loop n r (''POINTER('' @ pointee_type @ '')'' @ group m 2)))"

definition weight :: "string \<Rightarrow> nat" where
  "weight s = length (filter (\<lambda>c. c \<in> set ''*&[ts'') s)"

definition translate_type :: "string \<Rightarrow> bool \<Rightarrow> string" where
  "translate_type type_name bracket = the (translate_fuel (2 * weight type_name + 2) type_name bracket)"

text \<open>
  The interpreter bounds the depth of the call stack (\<^verbatim>\<open>sys.getrecursionlimit()\<close>, 1000
  unless it is changed): a call that does not fit raises \<^verbatim>\<open>RecursionError\<close>, which
  \<^verbatim>\<open>translate_type\<close> does not catch, so it ends every enclosing call. In
  \<open>translate_stack n d\<close> the number \<open>d\<close> counts the nested activations of
  \<^verbatim>\<open>translate_type\<close> that still fit: an activation takes one and leaves \<open>d - 1\<close> to the
  calls it makes from its loops and for an array. The bound \<open>n\<close> is the one of
  \<open>translate_fuel\<close>.
\<close>

fun translate_stack :: "nat \<Rightarrow> nat \<Rightarrow> string \<Rightarrow> bool \<Rightarrow> (py_error + string) option"
  and rewrite_loop_stack :: "nat \<Rightarrow> nat \<Rightarrow> rx \<Rightarrow> string \<Rightarrow> (py_error + string) option" where
  "translate_stack 0 d type_name bracket = None"
| "translate_stack (Suc n) 0 type_name bracket = Some (Inl RecursionError)"
| "translate_stack (Suc n) (Suc d) type_name bracket =
     (case rewrite_loop_stack n d rx_pointer (canonical_spelling type_name) of
        None \<Rightarrow> None
      | Some (Inl e) \<Rightarrow> Some (Inl e)
      | Some (Inr r1) \<Rightarrow>
          (case rewrite_loop_stack n d rx_ptr r1 of
             None \<Rightarrow> None
           | Some (Inl e) \<Rightarrow> Some (Inl e)
           | Some (Inr r2) \<Rightarrow>
               (let result = finish_spelling r2 in
                case re_match rx_array result of
                  None \<Rightarrow> Some (Inr result)
                | Some m \<Rightarrow>
                    (case translate_stack n d (group m 1 @ group m 3) True of
                       None \<Rightarrow> None
                     | Some (Inl e) \<Rightarrow> Some (Inl e)
                     | Some (Inr t) \<Rightarrow>
                         (let result = t @ '' * '' @ group m 2
                          in Some (Inr (if bracket then ''('' @ result @ '')'' else result)))))))"
| "rewrite_loop_stack 0 d r result = None"
| "rewrite_loop_stack (Suc n) d r result =
     (case re_match r result of
        None \<Rightarrow> Some (Inr result)
      | Some m \<Rightarrow>
          (case translate_stack n d (group m 1) False of
             None \<Rightarrow> None
           | Some (Inl e) \<Rightarrow> Some (Inl e)
           | Some (Inr pointee_type) \<Rightarrow>
               rewrite_loop_stack n d r (''POINTER('' @ pointee_type @ '')'' @ group m 2)))"

definition translate_type_stack :: "nat \<Rightarrow> string \<Rightarrow> bool \<Rightarrow> py_error + string" where
  \<comment> \<open>\<^verbatim>\<open>translate_type(type_name, bracket)\<close> called where \<open>d\<close> nested activations still fit\<close>
  "translate_type_stack d type_name bracket =
     the (translate_stack (2 * weight type_name + 2) d type_name bracket)"

definition ampersands :: "nat \<Rightarrow> string" where
  \<comment> \<open>\<^verbatim>\<open>'a' + '&' * k\<close>\<close>
  "ampersands k = CHR ''a'' # replicate k (CHR ''&'')"


definition primitive_roots :: "string list" where
  \<comment> \<open>the alternatives of the pattern \<^verbatim>\<open>^(float|u?int|double|u?char|u?short|u?long)\<close>\<close>
  "primitive_roots = [''float'', ''int'', ''uint'', ''double'', ''char'', ''uchar'', ''short'',
     ''ushort'', ''long'', ''ulong'']"

fun pointers :: "nat \<Rightarrow> string \<Rightarrow> string" where
  \<comment> \<open>\<open>n\<close> nested \<^verbatim>\<open>POINTER(...)\<close> wrappers\<close>
  "pointers 0 x = x"
| "pointers (Suc n) x = ''POINTER('' @ pointers n x @ '')''"

section \<open>Declarations\<close>

text \<open>
  The type handles come from the header parser. The model keeps what the source asks of
  a handle: its kind (only \<^verbatim>\<open>TypeKind.POINTER\<close> and \<^verbatim>\<open>TypeKind.VOID\<close> are tested), its
  spelling, whether it is const-qualified, and its pointee. \<^verbatim>\<open>get_pointee()\<close> of a type
  that is not a pointer is the parser's invalid type, whose spelling is empty.
\<close>

datatype TypeKind = POINTER | VOID | INVALID | OTHER

datatype ctype =
  CType (kind: TypeKind) (spelling: string) (is_const_qualified: bool) (pointee: "ctype option")

definition get_pointee :: "ctype \<Rightarrow> ctype" where
  "get_pointee t = (case pointee t of Some pt \<Rightarrow> pt | None \<Rightarrow> CType INVALID [] False None)"

record Declaration =
  name :: string
  docstring :: "string option"

record Parameter = Declaration +
  ptype :: ctype
  default_value :: "string option"
  annotation :: "string option"
  is_count :: bool

record Method = Declaration +
  mtype :: string
  parameters :: "Parameter list"
  count_parameter_names :: "string list"

definition truthy :: "string option \<Rightarrow> bool" where
  \<comment> \<open>Python's truth value of a string or \<^verbatim>\<open>None\<close>\<close>
  "truthy x = (case x of None \<Rightarrow> False | Some s \<Rightarrow> s \<noteq> [])"

definition Parameter_init ::
  "string \<Rightarrow> ctype \<Rightarrow> string option \<Rightarrow> string option \<Rightarrow> string option \<Rightarrow> Parameter" where
  \<comment> \<open>\<^verbatim>\<open>Parameter(name, type_, default_value, docstring, annotation)\<close>\<close>
  "Parameter_init name0 type0 default_value0 docstring0 annotation0 =
     (let name1 = (if name0 = ''type'' then ''type_'' else name0)
      in \<lparr> name = name1, docstring = docstring0, ptype = type0,
           default_value = default_value0, annotation = annotation0, is_count = False \<rparr>)"

definition rx_error :: rx where  \<comment> \<open>\<^verbatim>\<open>^(vr::)?E\S+Error$\<close>\<close>
  "rx_error = seq [Bol, Opt (Grp 1 (lit ''vr::'')), Lit (CHR ''E''), Plus not_space,
     lit ''Error'', Eol]"

definition rx_array_count :: rx where  \<comment> \<open>\<^verbatim>\<open>array_count:(\S+);\<close>\<close>
  "rx_array_count = seq [lit ''array_count:'', Grp 1 (Plus not_space), Lit (CHR '';'')]"

definition rx_device_count :: rx where  \<comment> \<open>\<^verbatim>\<open>^unTrackedDevice.*Count$\<close>\<close>
  "rx_device_count = seq [Bol, lit ''unTrackedDevice'', Star any_char, lit ''Count'', Eol]"

definition is_error :: "Parameter \<Rightarrow> bool" where
  "is_error p =
     (if kind (ptype p) \<noteq> POINTER then False
      else re_match rx_error (translate_type (spelling (get_pointee (ptype p))) False) \<noteq> None)"

definition is_array :: "Parameter \<Rightarrow> caps option" where
  \<comment> \<open>the match object, or \<open>None\<close> for \<^verbatim>\<open>False\<close> and for no match\<close>
  "is_array p =
     (if \<not> truthy (annotation p) then None
      else re_match rx_array_count (the (annotation p)))"

definition is_out_string :: "Parameter \<Rightarrow> bool" where
  "is_out_string p =
     (if \<not> truthy (annotation p) then False
      else the (annotation p) = ''out_string: ;'')"

definition is_output :: "Parameter \<Rightarrow> bool" where
  "is_output p =
     (if is_count p then False
      else if \<not> kind (ptype p) = POINTER then False
      else let pt = get_pointee (ptype p) in
        if is_const_qualified pt then False
        else if kind pt = VOID then False
        else True)"

definition is_input :: "Parameter \<Rightarrow> bool" where
  "is_input p =
     (if is_count p then False
      else if is_array p \<noteq> None then True
      else if name p = ''pEvent'' then True
      else if name p = ''uncbVREvent'' then False
      else if name p = ''unControllerStateSize'' then False
      else if \<not> is_output p then True
      else False)"

definition input_param_name :: "Parameter \<Rightarrow> string option" where
  "input_param_name p =
     (if \<not> is_input p then None
      else if truthy (default_value p) then Some (name p @ ''='' @ the (default_value p))
      else Some (name p))"

definition call_param_name :: "Parameter \<Rightarrow> string" where
  "call_param_name p =
     (if is_array p \<noteq> None then name p @ ''Arg''
      else if is_count p then name p
      else if is_out_string p then name p
      else if is_output p then ''byref('' @ name p @ '')''
      else if kind (ptype p) = POINTER then ''byref('' @ name p @ '')''
      else name p)"

definition return_param_name :: "Parameter \<Rightarrow> string option" where
  "return_param_name p =
     (if is_error p then None
      else if is_out_string p then Some (''bytes('' @ name p @ ''.value)'')
      else if \<not> is_output p then None
      else let result = name p;
               pt = translate_type (spelling (get_pointee (ptype p))) False
           in Some (if startswith pt ''c_'' then result @ ''.value'' else result))"

fun has_return_loop :: "Parameter list \<Rightarrow> bool" where
  "has_return_loop [] = True"
| "has_return_loop (p # ps) = (if is_out_string p then False else has_return_loop ps)"

definition has_return :: "Method \<Rightarrow> bool" where
  "has_return m = (if mtype m = ''void'' then False else has_return_loop (parameters m))"


section \<open>Text helpers of the Python library\<close>

definition spaces :: "nat \<Rightarrow> string" where
  "spaces n = replicate n (CHR '' '')"

definition triple_quote :: string where
  \<comment> \<open>three double quotes\<close>
  "triple_quote = replicate 3 (CHR 0x22)"

fun join :: "string \<Rightarrow> string list \<Rightarrow> string" where
  \<comment> \<open>\<^verbatim>\<open>sep.join(xs)\<close>\<close>
  "join sep [] = []"
| "join sep [x] = x"
| "join sep (x # y # zs) = x @ sep @ join sep (y # zs)"

fun split_on :: "char \<Rightarrow> string \<Rightarrow> string list" where
  \<comment> \<open>\<^verbatim>\<open>s.split(sep)\<close> for a separator of one character\<close>
  "split_on sep [] = [[]]"
| "split_on sep (c # cs) =
     (if c = sep then [] # split_on sep cs
      else (case split_on sep cs of [] \<Rightarrow> [[c]] | l # ls \<Rightarrow> (c # l) # ls))"

definition lower_char :: "char \<Rightarrow> char" where
  \<comment> \<open>\<^verbatim>\<open>str.lower()\<close> of one character\<close>
  "lower_char c = (let n = of_char c :: nat in
     if (65 \<le> n \<and> n \<le> 90) \<or> (192 \<le> n \<and> n \<le> 222 \<and> n \<noteq> 215) then char_of (n + 32) else c)"

definition blank :: "char \<Rightarrow> bool" where
  \<comment> \<open>\<^verbatim>\<open>[ \t]\<close>\<close>
  "blank c = (c = CHR '' '' \<or> c = CHR 0x09)"

fun common_prefix :: "string \<Rightarrow> string \<Rightarrow> string" where
  "common_prefix (x # xs) (y # ys) = (if x = y then x # common_prefix xs ys else [])"
| "common_prefix xs ys = []"

fun dedent_margin :: "string option \<Rightarrow> string list \<Rightarrow> string option" where
  \<comment> \<open>the loop over \<^verbatim>\<open>indents\<close> in \<^verbatim>\<open>textwrap.dedent\<close>\<close>
  "dedent_margin margin [] = margin"
| "dedent_margin margin (indent # rest) =
     dedent_margin
       (case margin of
          None \<Rightarrow> Some indent
        | Some mg \<Rightarrow>
            if startswith indent mg then Some mg
            else if startswith mg indent then Some indent
            else Some (common_prefix mg indent))
       rest"

definition dedent :: "string \<Rightarrow> string" where
  \<comment> \<open>\<^verbatim>\<open>textwrap.dedent(text)\<close>: lines of blanks become empty, then the longest common
     leading run of blanks of the other lines is removed from every line that has it\<close>
  "dedent text =
     (let lines = map (\<lambda>l. if l \<noteq> [] \<and> list_all blank l then [] else l) (split_on newline text);
          indents = map (takeWhile blank) (filter (\<lambda>l. dropWhile blank l \<noteq> []) lines)
      in case dedent_margin None indents of
           None \<Rightarrow> join [newline] lines
         | Some margin \<Rightarrow>
             if margin = [] then join [newline] lines
             else join [newline]
                    (map (\<lambda>l. if startswith l margin then drop (length margin) l else l) lines))"

definition is_linebreak :: "char \<Rightarrow> bool" where
  \<comment> \<open>the line boundaries of \<^verbatim>\<open>str.splitlines\<close> among the code points 0 to 255\<close>
  "is_linebreak c = (let n = of_char c :: nat in (10 \<le> n \<and> n \<le> 13) \<or> (28 \<le> n \<and> n \<le> 30) \<or> n = 133)"

fun splitlines_acc :: "string \<Rightarrow> string \<Rightarrow> string list" where
  "splitlines_acc acc [] = (if acc = [] then [] else [acc])"
| "splitlines_acc acc [c] = (if is_linebreak c then [acc @ [c]] else [acc @ [c]])"
| "splitlines_acc acc (c # d # ds) =
     (if c = CHR 0x0D \<and> d = CHR 0x0A then (acc @ [c, d]) # splitlines_acc [] ds
      else if is_linebreak c then (acc @ [c]) # splitlines_acc [] (d # ds)
      else splitlines_acc (acc @ [c]) (d # ds))"

definition splitlines :: "string \<Rightarrow> string list" where
  \<comment> \<open>\<^verbatim>\<open>text.splitlines(True)\<close>\<close>
  "splitlines text = splitlines_acc [] text"

definition indent :: "string \<Rightarrow> string \<Rightarrow> string" where
  \<comment> \<open>\<^verbatim>\<open>textwrap.indent(text, prefix)\<close>: the prefix goes before every line that is not
     whitespace only\<close>
  "indent text prefix =
     concat (map (\<lambda>line. if strip line \<noteq> [] then prefix @ line else line) (splitlines text))"

fun expandtabs_from :: "nat \<Rightarrow> string \<Rightarrow> string" where
  "expandtabs_from col [] = []"
| "expandtabs_from col (c # cs) =
     (if c = CHR 0x09 then spaces (8 - col mod 8) @ expandtabs_from (col + (8 - col mod 8)) cs
      else if c = CHR 0x0A \<or> c = CHR 0x0D then c # expandtabs_from 0 cs
      else c # expandtabs_from (Suc col) cs)"

definition lstrip :: "string \<Rightarrow> string" where
  "lstrip s = dropWhile is_space s"

fun cleandoc_margin :: "nat option \<Rightarrow> string list \<Rightarrow> nat option" where
  \<comment> \<open>the smallest indentation of the lines that have content; \<open>None\<close> is \<^verbatim>\<open>sys.maxsize\<close>\<close>
  "cleandoc_margin margin [] = margin"
| "cleandoc_margin margin (line # rest) =
     (let content = length (lstrip line) in
      if content \<noteq> 0 then
        (let indent = length line - content in
         cleandoc_margin (case margin of None \<Rightarrow> Some indent | Some mg \<Rightarrow> Some (min mg indent)) rest)
      else cleandoc_margin margin rest)"

definition cleandoc :: "string \<Rightarrow> string" where
  \<comment> \<open>\<^verbatim>\<open>inspect.cleandoc(doc)\<close>\<close>
  "cleandoc doc =
     (case split_on newline (expandtabs_from 0 doc) of
        [] \<Rightarrow> []
      | first # others \<Rightarrow>
          (let lines = lstrip first #
                 (case cleandoc_margin None others of
                    None \<Rightarrow> others
                  | Some margin \<Rightarrow> map (drop margin) others);
               lines = rev (dropWhile (\<lambda>l. l = []) (rev lines));
               lines = dropWhile (\<lambda>l. l = []) lines
           in join [newline] lines))"

section \<open>Rendering parameters, methods and functions\<close>

definition pre_call_block :: "Parameter \<Rightarrow> string" where
  "pre_call_block p =
     (case is_array p of
        Some m \<Rightarrow>
          (let count_param = group m 1;
               element_t = translate_type (spelling (get_pointee (ptype p))) False;
               result =
                 (if re_match rx_device_count count_param \<noteq> None then
                    dedent (spaces 20 @ ''if '' @ name p @ '' is None:'' @ [newline]
                      @ spaces 24 @ count_param @ '' = k_unMaxTrackedDeviceCount'' @ [newline]
                      @ spaces 24 @ name p @ '' = ('' @ element_t @ '' * '' @ count_param @ '')()'' @ [newline]
                      @ spaces 24 @ name p @ ''Arg = byref('' @ name p @ ''[0])'' @ [newline]
                      @ spaces 20)
                  else
                    dedent (spaces 16 @ ''if '' @ name p @ '' is None:'' @ [newline]
                      @ spaces 20 @ count_param @ '' = 0'' @ [newline]
                      @ spaces 20 @ name p @ ''Arg = None'' @ [newline]
                      @ spaces 16))
           in result @
                dedent (spaces 16 @ ''else:'' @ [newline]
                  @ spaces 20 @ count_param @ '' = len('' @ name p @ '')'' @ [newline]
                  @ spaces 20 @ name p @ ''Arg = byref('' @ name p @ ''[0])'' @ [newline]
                  @ spaces 16))
      | None \<Rightarrow>
          if is_out_string p then []
          else if is_count p then []
          else if name p = ''uncbVREvent'' then ''uncbVREvent = sizeof(VREvent_t)'' @ [newline]
          else if name p = ''unControllerStateSize'' then
            ''uncbVREvent = sizeof(VRControllerState_t)'' @ [newline]
          else if \<not> is_input p then
            (let t = translate_type (spelling (get_pointee (ptype p))) False
             in name p @ '' = '' @ t @ ''()'' @ [newline])
          else [])"

definition post_call_block :: "Parameter \<Rightarrow> string" where
  "post_call_block p =
     (if is_error p then
        dedent (spaces 16 @ ''if '' @ name p @ ''.value != 0:'' @ [newline]
          @ spaces 20 @ ''raise OpenVRError(str('' @ name p @ ''))'' @ [newline]
          @ spaces 12)
      else [])"

text \<open>
  The loops of \<^verbatim>\<open>Method.ctypes_string\<close>. The parameters of a method are distinct objects,
  so \<^verbatim>\<open>p2 is p\<close> compares positions in the list. The first loop sets \<^verbatim>\<open>is_count\<close> on the
  parameter after each output string: the parameter list is state, passed through and
  returned. \<^verbatim>\<open>self.parameters[pix + 1]\<close> raises \<^verbatim>\<open>IndexError\<close> past the end.
\<close>

fun probe_args :: "nat \<Rightarrow> nat \<Rightarrow> Parameter list \<Rightarrow> string list" where
  \<comment> \<open>\<^verbatim>\<open>call_params0\<close>: \<open>pix\<close> is the position of the output string, \<open>j\<close> that of \<open>p2\<close>\<close>
  "probe_args pix j [] = []"
| "probe_args pix j (p2 # rest) =
     (if j = pix then ''None'' # probe_args pix (Suc j) rest
      else if j = Suc pix then ''0'' # probe_args pix (Suc j) rest
      else if call_param_name p2 \<noteq> [] then call_param_name p2 # probe_args pix (Suc j) rest
      else probe_args pix (Suc j) rest)"

definition probe_block :: "string \<Rightarrow> string \<Rightarrow> string \<Rightarrow> string" where
  \<comment> \<open>the statements of lines 216 to 221\<close>
  "probe_block len_name param_list p_name =
     dedent (spaces 20 @ len_name @ '' = fn('' @ param_list @ '')'' @ [newline]
       @ spaces 20 @ ''if '' @ len_name @ '' == 0:'' @ [newline]
       @ spaces 24 @ ''return b'' @ [CHR 0x27, CHR 0x27] @ [newline]
       @ spaces 20 @ p_name @ '' = ctypes.create_string_buffer('' @ len_name @ '')'' @ [newline]
       @ spaces 16)"

fun out_string_loop ::
  "nat list \<Rightarrow> Parameter list \<Rightarrow> string \<Rightarrow> (py_error + string) \<times> Parameter list" where
  "out_string_loop [] ps pre_call_statements = (Inr pre_call_statements, ps)"
| "out_string_loop (pix # rest) ps pre_call_statements =
     (let p = ps ! pix in
      if is_out_string p then
        (if Suc pix < length ps then
           (let ps = ps[Suc pix := (ps ! Suc pix)\<lparr>is_count := True\<rparr>];
                len_param = ps ! Suc pix;
                param_list = join '', '' (probe_args pix 0 ps)
            in out_string_loop rest ps
                 (pre_call_statements @ probe_block (name len_param) param_list (name p)))
         else (Inl IndexError, ps))
      else out_string_loop rest ps pre_call_statements)"

fun param_loop ::
  "Parameter list \<Rightarrow> string list \<times> string list \<times> string list \<times> string \<times> string
     \<Rightarrow> string list \<times> string list \<times> string list \<times> string \<times> string" where
  "param_loop [] acc = acc"
| "param_loop (p # ps) (in_params, call_params, out_params, pre_call_statements, post_call_statements) =
     param_loop ps
       (if truthy (input_param_name p) then in_params @ [the (input_param_name p)] else in_params,
        if call_param_name p \<noteq> [] then call_params @ [call_param_name p] else call_params,
        if truthy (return_param_name p) then out_params @ [the (return_param_name p)] else out_params,
        pre_call_statements @ pre_call_block p,
        post_call_statements @ post_call_block p)"

definition marks :: "Parameter list \<Rightarrow> Parameter list \<Rightarrow> bool" where
  \<comment> \<open>\<open>ps'\<close> is \<open>ps\<close> except that \<^verbatim>\<open>is_count\<close> may have been set on parameters that come right
     after an output string\<close>
  "marks ps ps' \<longleftrightarrow> length ps' = length ps
     \<and> list_all (\<lambda>j. ps' ! j = ps ! j
           \<or> (ps' ! j = (ps ! j)\<lparr>is_count := True\<rparr> \<and> 0 < j \<and> is_out_string (ps ! (j - 1))))
         [0..<length ps]"

definition ctypes_string :: "Method \<Rightarrow> (py_error + string) \<times> Method" where
  \<comment> \<open>the rendered text, or the exception, and the method with its parameters as the
     call leaves them\<close>
  "ctypes_string m =
     (let in_params = [''self''];
          out_params = (if has_return m then [''result''] else [])
      in case out_string_loop [0..<length (parameters m)] (parameters m) [] of
           (Inl e, ps) \<Rightarrow> (Inl e, m\<lparr>parameters := ps\<rparr>)
         | (Inr pre_call_statements, ps) \<Rightarrow>
             (let m = m\<lparr>parameters := ps\<rparr>;
                  (in_params, call_params, out_params, pre_call_statements, post_call_statements) =
                    param_loop ps (in_params, [], out_params, pre_call_statements, []);
                  param_list1 = join '', '' in_params
              in case name m of
                   [] \<Rightarrow> (Inl IndexError, m)
                 | c # cs \<Rightarrow>
                     (let method_name = lower_char c # cs;
                          method_string = ''def '' @ method_name @ ''('' @ param_list1 @ ''):'' @ [newline];
                          body_string =
                            (if truthy (docstring m)
                             then triple_quote @ the (docstring m) @ triple_quote @ [newline, newline] else []);
                          body_string = body_string @ ''fn = self.function_table.'' @ method_name @ [newline];
                          body_string = body_string @ pre_call_statements;
                          param_list2 = join '', '' call_params;
                          body_string = body_string @
                            (if has_return m then ''result = fn('' @ param_list2 @ '')'' @ [newline]
                             else ''fn('' @ param_list2 @ '')'' @ [newline]);
                          body_string = body_string @ post_call_statements;
                          body_string = body_string @
                            (if length out_params > 0
                             then ''return '' @ join '', '' out_params @ [newline] else []);
                          body_string = indent body_string (spaces 4)
                      in (Inr (method_string @ body_string), m))))"

record Function = Declaration +
  ftype :: ctype
  fparameters :: "Parameter list"

fun function_loop ::
  "Parameter list \<Rightarrow> string list \<times> string list \<times> string list \<times> Parameter option
     \<Rightarrow> string list \<times> string list \<times> string list \<times> Parameter option" where
  \<comment> \<open>the loop of lines 112 to 128: \<^verbatim>\<open>params\<close>, \<^verbatim>\<open>call_params\<close>, \<^verbatim>\<open>param_types\<close>, \<^verbatim>\<open>error_param\<close>\<close>
  "function_loop [] acc = acc"
| "function_loop (p # ps) (params, call_params, param_types, error_param) =
     (let (params, error_param) =
            (if is_error p then (params, Some p)
             else (let n = name p;
                       n = (if truthy (default_value p) then n @ ''='' @ the (default_value p) else n)
                   in (params @ [n], error_param)));
          call_params =
            (if kind (ptype p) = POINTER then
               (let pt = get_pointee (ptype p) in
                if is_const_qualified pt then call_params @ [name p]
                else call_params @ [''byref('' @ name p @ '')''])
             else call_params @ [name p]);
          param_types = param_types @ [translate_type (spelling (ptype p)) False]
      in function_loop ps (params, call_params, param_types, error_param))"

definition Function_str :: "Function \<Rightarrow> py_error + string" where
  \<comment> \<open>\<^verbatim>\<open>Function.__str__\<close>\<close>
  "Function_str f =
     (let py_name = name f;
          py_name = (if startswith py_name ''VR_'' then drop 3 py_name else py_name)
      in case py_name of
           [] \<Rightarrow> Inl IndexError
         | c # cs \<Rightarrow>
             (let py_name = lower_char c # cs;
                  docstring1 =
                    (if truthy (docstring f)
                     then indent ([newline] @ triple_quote @ the (docstring f) @ triple_quote) (spaces 20)
                     else []);
                  (params, call_params, param_types, error_param) =
                    function_loop (fparameters f) ([], [], [], None);
                  restype = translate_type (spelling (ftype f)) False;
                  args = join '', '' params;
                  call_args = join '', '' call_params;
                  arg_types = join '', '' param_types;
                  method_string =
                    (case error_param of
                       None \<Rightarrow>
                         [newline]
                         @ spaces 16 @ ''_openvr.'' @ name f @ ''.restype = '' @ restype @ [newline]
                         @ spaces 16 @ ''_openvr.'' @ name f @ ''.argtypes = ['' @ arg_types @ '']'' @ [newline]
                         @ spaces 16 @ ''def '' @ py_name @ ''('' @ args @ ''):'' @ docstring1 @ [newline]
                         @ spaces 20 @ ''result =     _openvr.'' @ name f @ ''('' @ call_args @ '')'' @ [newline]
                         @ spaces 20 @ ''return result'' @ [newline]
                         @ spaces 12
                     | Some error_param \<Rightarrow>
                         (let etype = translate_type (spelling (get_pointee (ptype error_param))) False
                          in [newline]
                             @ spaces 16 @ ''_openvr.'' @ name f @ ''.restype = '' @ restype @ [newline]
                             @ spaces 16 @ ''_openvr.'' @ name f @ ''.argtypes = ['' @ arg_types @ '']'' @ [newline]
                             @ spaces 16 @ ''def '' @ py_name @ ''('' @ args @ ''):'' @ docstring1 @ [newline]
                             @ spaces 20 @ name error_param @ '' = '' @ etype @ ''()'' @ [newline]
                             @ spaces 20 @ ''result =     _openvr.'' @ name f @ ''('' @ call_args @ '')'' @ [newline]
                             @ spaces 20 @ ''_checkInitError('' @ name error_param @ ''.value)'' @ [newline]
                             @ spaces 20 @ ''return result'' @ [newline]
                             @ spaces 12))
              in Inr (cleandoc method_string)))"

section \<open>Example declarations\<close>

definition uint32_type :: ctype where
  "uint32_type = CType OTHER ''uint32_t'' False None"

definition char_pointer_type :: ctype where
  "char_pointer_type = CType POINTER ''char *'' False (Some (CType OTHER ''char'' False None))"

definition example_out_string :: Parameter where
  "example_out_string = (Parameter_init ''pchValue'' char_pointer_type None None (Some ''out_string: ;''))"

definition example_length :: Parameter where
  "example_length = Parameter_init ''unBufferSize'' uint32_type None None None"

definition example_count :: Parameter where
  "example_count = (Parameter_init ''unCount'' uint32_type None None None)\<lparr>is_count := True\<rparr>"

definition example_string_method :: Method where
  "example_string_method = \<lparr> name = ''GetString'', docstring = None, mtype = ''uint32_t'',
     parameters = [example_out_string, example_length], count_parameter_names = [] \<rparr>"


definition example_string_text :: string where
  "example_string_text =
     ''def getString(self):'' @ [newline]
     @ ''    fn = self.function_table.getString'' @ [newline]
     @ ''    unBufferSize = fn(None, 0)'' @ [newline]
     @ ''    if unBufferSize == 0:'' @ [newline]
     @ ''        return b'' @ [CHR 0x27, CHR 0x27] @ [newline]
     @ ''    pchValue = ctypes.create_string_buffer(unBufferSize)'' @ [newline]
     @ ''    fn(pchValue, unBufferSize)'' @ [newline]
     @ ''    return bytes(pchValue.value)'' @ [newline]"

definition error_pointer_type :: ctype where
  "error_pointer_type =
     CType POINTER ''vr::EVRInitError *'' False (Some (CType OTHER ''vr::EVRInitError'' False None))"

definition const_error_pointer_type :: ctype where
  "const_error_pointer_type =
     CType POINTER ''const vr::EVRInitError *'' False
       (Some (CType OTHER ''const vr::EVRInitError'' True None))"

definition application_type :: ctype where
  "application_type = CType OTHER ''vr::EVRApplicationType'' False None"

definition example_function :: Function where
  "example_function = \<lparr> name = ''VR_InitInternal'', docstring = None, ftype = uint32_type,
     fparameters = [Parameter_init ''peError'' error_pointer_type None None None,
                    Parameter_init ''eType'' application_type None None None] \<rparr>"

definition example_const_function :: Function where
  "example_const_function = \<lparr> name = ''VR_InitInternal'', docstring = None, ftype = uint32_type,
     fparameters = [Parameter_init ''peError'' const_error_pointer_type None None None,
                    Parameter_init ''eType'' application_type None None None] \<rparr>"

definition example_last_string_method :: Method where
  "example_last_string_method = \<lparr> name = ''GetString'', docstring = None, mtype = ''uint32_t'',
     parameters = [example_out_string], count_parameter_names = [] \<rparr>"

section \<open>A declarative reading of the patterns\<close>

text \<open>
  \<open>accepts r c u rest g g'\<close> says that the pattern \<open>r\<close> can consume exactly \<open>u\<close>, when
  \<open>c\<close> is the character before \<open>u\<close> and \<open>rest\<close> follows it, taking the groups from \<open>g\<close>
  to \<open>g'\<close>. It describes which matches exist, not which one comes first.
  \<open>wsum w s\<close> adds up the weights \<open>w\<close> of the characters of \<open>s\<close>.
\<close>

definition last_char :: "char option \<Rightarrow> string \<Rightarrow> char option" where
  "last_char c u = (if u = [] then c else Some (last u))"


fun accepts :: "rx \<Rightarrow> char option \<Rightarrow> string \<Rightarrow> string \<Rightarrow> caps \<Rightarrow> caps \<Rightarrow> bool" where
  "accepts (Lit a) c u rest g g' = (u = [a] \<and> g' = g)"
| "accepts (Cls p) c u rest g g' = (\<exists>x. u = [x] \<and> p x \<and> g' = g)"
| "accepts (Star p) c u rest g g' = ((\<forall>x \<in> set u. p x) \<and> g' = g)"
| "accepts (Plus p) c u rest g g' = (u \<noteq> [] \<and> (\<forall>x \<in> set u. p x) \<and> g' = g)"
| "accepts (Seq a b) c u rest g g' =
     (\<exists>u1 u2 g1. u = u1 @ u2 \<and> accepts a c u1 (u2 @ rest) g g1
        \<and> accepts b (last_char c u1) u2 rest g1 g')"
| "accepts (Alt a b) c u rest g g' = (accepts a c u rest g g' \<or> accepts b c u rest g g')"
| "accepts (Opt a) c u rest g g' = (accepts a c u rest g g' \<or> (u = [] \<and> g' = g))"
| "accepts (Grp n a) c u rest g g' = (\<exists>g1. accepts a c u rest g g1 \<and> g' = (n, u) # g1)"
| "accepts WordB c u rest g g' = (u = [] \<and> g' = g \<and> word_at c \<noteq> word_at (next_char rest))"
| "accepts Bol c u rest g g' = (u = [] \<and> g' = g \<and> c = None)"
| "accepts Eol c u rest g g' = (u = [] \<and> g' = g \<and> (rest = [] \<or> rest = [newline]))"


definition wsum :: "(char \<Rightarrow> nat) \<Rightarrow> string \<Rightarrow> nat" where
  "wsum w s = sum_list (map w s)"

definition neutral :: "(char \<Rightarrow> nat) \<Rightarrow> bool" where
  \<comment> \<open>the weights under which no rewrite of \<^verbatim>\<open>translate_type\<close> adds weight\<close>
  "neutral w \<longleftrightarrow> (\<forall>c \<in> set ''816324ulongopenvr_bchaPOINTER()Nid ''. w c = 0)
     \<and> w (CHR ''*'') \<le> w (CHR ''['') \<and> w (CHR ''t'') \<le> w (CHR ''s'')"

definition unit_weight :: "char \<Rightarrow> nat" where
  "unit_weight c = (if c \<in> set ''*&[ts'' then 1 else 0)"

fun no_word_start :: "(char \<Rightarrow> bool) \<Rightarrow> char option \<Rightarrow> string \<Rightarrow> bool" where
  \<comment> \<open>no character with \<open>P\<close> stands at the start of a word; \<open>c\<close> is the character before\<close>
  "no_word_start P c [] = True"
| "no_word_start P c (x # xs) = ((P x \<longrightarrow> word_at c) \<and> no_word_start P (Some x) xs)"

definition inert_char :: "char \<Rightarrow> bool" where
  \<comment> \<open>the characters of the pointer types over the primitive roots\<close>
  "inert_char c = (c \<in> set ''POINTER()c_floatinudbeshrg'')"

section \<open>Strings in target form\<close>







declare re_sub_from.simps [simp del]
section \<open>Properties\<close>

subsection \<open>The matcher\<close>

lemma in_many:
  "(c', s') \<in> set (many p c s) \<longleftrightarrow>
     (\<exists>u. s = u @ s' \<and> (\<forall>x \<in> set u. p x) \<and> c' = last_char c u)"
proof (induction s arbitrary: c)
  case Nil
  then show ?case by (auto simp: last_char_def)
next
  case (Cons x xs)
  show ?case
  proof (cases "p x")
    case False
    then show ?thesis
      by (auto simp: last_char_def Cons_eq_append_conv)
  next
    case True
    have "(c', s') \<in> set (many p c (x # xs)) \<longleftrightarrow>
          (c', s') \<in> set (many p (Some x) xs) \<or> (c' = c \<and> s' = x # xs)"
      using True by auto
    also have "\<dots> \<longleftrightarrow> (\<exists>u. xs = u @ s' \<and> (\<forall>y \<in> set u. p y) \<and> c' = last_char (Some x) u)
          \<or> (c' = c \<and> s' = x # xs)"
      by (simp add: Cons.IH)
    also have "\<dots> \<longleftrightarrow> (\<exists>u. x # xs = u @ s' \<and> (\<forall>y \<in> set u. p y) \<and> c' = last_char c u)"
    proof
      assume "(\<exists>u. xs = u @ s' \<and> (\<forall>y \<in> set u. p y) \<and> c' = last_char (Some x) u)
          \<or> (c' = c \<and> s' = x # xs)"
      then show "\<exists>u. x # xs = u @ s' \<and> (\<forall>y \<in> set u. p y) \<and> c' = last_char c u"
      proof
        assume "\<exists>u. xs = u @ s' \<and> (\<forall>y \<in> set u. p y) \<and> c' = last_char (Some x) u"
        then obtain u where u: "xs = u @ s'" "\<forall>y \<in> set u. p y" "c' = last_char (Some x) u"
          by blast
        then have "x # xs = (x # u) @ s' \<and> (\<forall>y \<in> set (x # u). p y) \<and> c' = last_char c (x # u)"
          using True by (auto simp: last_char_def)
        then show ?thesis by blast
      next
        assume "c' = c \<and> s' = x # xs"
        then have "x # xs = [] @ s' \<and> (\<forall>y \<in> set []. p y) \<and> c' = last_char c []"
          by (simp add: last_char_def)
        then show ?thesis by blast
      qed
    next
      assume "\<exists>u. x # xs = u @ s' \<and> (\<forall>y \<in> set u. p y) \<and> c' = last_char c u"
      then obtain u where u: "x # xs = u @ s'" "\<forall>y \<in> set u. p y" "c' = last_char c u"
        by blast
      show "(\<exists>u. xs = u @ s' \<and> (\<forall>y \<in> set u. p y) \<and> c' = last_char (Some x) u)
          \<or> (c' = c \<and> s' = x # xs)"
      proof (cases u)
        case Nil
        then show ?thesis using u by (simp add: last_char_def)
      next
        case (Cons y ys)
        then have "xs = ys @ s' \<and> (\<forall>z \<in> set ys. p z) \<and> c' = last_char (Some x) ys"
          using u by (auto simp: last_char_def)
        then show ?thesis by blast
      qed
    qed
    finally show ?thesis .
  qed
qed

lemma many_nonempty: "many p c s \<noteq> []"
  by (induction s arbitrary: c) auto

lemma last_many: "last (many p c s) = (c, s)"
  by (cases s) auto

lemma many_lengths: "(c', s') \<in> set (butlast (many p c s)) \<Longrightarrow> length s' < length s"
proof (induction s arbitrary: c)
  case Nil
  then show ?case by simp
next
  case (Cons x xs)
  show ?case
  proof (cases "p x")
    case False
    with Cons.prems show ?thesis by simp
  next
    case True
    with Cons.prems have "(c', s') \<in> set (many p (Some x) xs)"
      by (simp add: butlast_append)
    then show ?thesis
      by (auto simp: in_many)
  qed
qed

lemma in_butlast_many:
  "(c', s') \<in> set (butlast (many p c s)) \<longleftrightarrow>
     (\<exists>u. u \<noteq> [] \<and> s = u @ s' \<and> (\<forall>x \<in> set u. p x) \<and> c' = last_char c u)"
proof
  assume a: "(c', s') \<in> set (butlast (many p c s))"
  then have "(c', s') \<in> set (many p c s)"
    by (rule in_set_butlastD)
  then obtain u where u: "s = u @ s'" "\<forall>x \<in> set u. p x" "c' = last_char c u"
    by (auto simp: in_many)
  from a have "length s' < length s"
    by (rule many_lengths)
  with u have "u \<noteq> []" by auto
  with u show "\<exists>u. u \<noteq> [] \<and> s = u @ s' \<and> (\<forall>x \<in> set u. p x) \<and> c' = last_char c u"
    by blast
next
  assume "\<exists>u. u \<noteq> [] \<and> s = u @ s' \<and> (\<forall>x \<in> set u. p x) \<and> c' = last_char c u"
  then obtain u where u: "u \<noteq> []" "s = u @ s'" "\<forall>x \<in> set u. p x" "c' = last_char c u"
    by blast
  then have m: "(c', s') \<in> set (many p c s)"
    by (auto simp: in_many)
  from u have ne: "(c', s') \<noteq> (c, s)" by auto
  have "many p c s = butlast (many p c s) @ [last (many p c s)]"
    by (simp add: many_nonempty)
  then have "set (many p c s) = set (butlast (many p c s)) \<union> {(c, s)}"
    by (metis last_many list.set(1) list.simps(15) set_append)
  with m ne show "(c', s') \<in> set (butlast (many p c s))"
    by auto
qed


lemma last_char_append: "last_char (last_char c u) v = last_char c (u @ v)"
  by (simp add: last_char_def)

lemma in_matches:
  "(c', s', g') \<in> set (matches r (c, s, g)) \<longleftrightarrow>
     (\<exists>u. s = u @ s' \<and> c' = last_char c u \<and> accepts r c u s' g g')"
proof (induction r arbitrary: c s g c' s' g')
  case (Lit a)
  then show ?case by (cases s) (auto simp: last_char_def)
next
  case (Cls p)
  have "(\<exists>u. s = u @ s' \<and> c' = last_char c u \<and> accepts (Cls p) c u s' g g') \<longleftrightarrow>
        (\<exists>x. s = [x] @ s' \<and> c' = last_char c [x] \<and> p x \<and> g' = g)"
    unfolding accepts.simps by blast
  then show ?case
    by (cases s) (simp_all add: last_char_def, blast)
next
  case (Star p)
  then show ?case by (auto simp: in_many)
next
  case (Plus p)
  then show ?case by (auto simp: in_butlast_many)
next
  case (Seq a b)
  show ?case
  proof
    assume "(c', s', g') \<in> set (matches (Seq a b) (c, s, g))"
    then obtain c1 s1 g1 where 1: "(c1, s1, g1) \<in> set (matches a (c, s, g))"
      and 2: "(c', s', g') \<in> set (matches b (c1, s1, g1))"
      by auto
    from 1 obtain u1 where u1: "s = u1 @ s1" "c1 = last_char c u1" "accepts a c u1 s1 g g1"
      using Seq.IH(1) by blast
    from 2 obtain u2 where u2: "s1 = u2 @ s'" "c' = last_char c1 u2" "accepts b c1 u2 s' g1 g'"
      using Seq.IH(2) by blast
    have "s = (u1 @ u2) @ s' \<and> c' = last_char c (u1 @ u2) \<and> accepts (Seq a b) c (u1 @ u2) s' g g'"
      using u1 u2 by (auto simp: last_char_append)
    then show "\<exists>u. s = u @ s' \<and> c' = last_char c u \<and> accepts (Seq a b) c u s' g g'"
      by blast
  next
    assume "\<exists>u. s = u @ s' \<and> c' = last_char c u \<and> accepts (Seq a b) c u s' g g'"
    then obtain u1 u2 g1 where u: "s = (u1 @ u2) @ s'" "c' = last_char c (u1 @ u2)"
      "accepts a c u1 (u2 @ s') g g1" "accepts b (last_char c u1) u2 s' g1 g'"
      by auto
    have 1: "(last_char c u1, u2 @ s', g1) \<in> set (matches a (c, s, g))"
      using u Seq.IH(1) by auto
    have 2: "(c', s', g') \<in> set (matches b (last_char c u1, u2 @ s', g1))"
      using u Seq.IH(2) by (auto simp: last_char_append)
    from 1 2 show "(c', s', g') \<in> set (matches (Seq a b) (c, s, g))"
      by auto
  qed
next
  case (Alt a b)
  then show ?case by auto
next
  case (Opt a)
  then show ?case by (auto simp: last_char_def)
next
  case (Grp n a)
  have "(c', s', g') \<in> set (matches (Grp n a) (c, s, g)) \<longleftrightarrow>
        (\<exists>g1. (c', s', g1) \<in> set (matches a (c, s, g))
           \<and> g' = (n, take (length s - length s') s) # g1)"
    by (force simp: image_iff)
  also have "\<dots> \<longleftrightarrow> (\<exists>g1 u. s = u @ s' \<and> c' = last_char c u \<and> accepts a c u s' g g1
           \<and> g' = (n, take (length s - length s') s) # g1)"
    by (simp add: Grp.IH) blast
  also have "\<dots> \<longleftrightarrow> (\<exists>g1 u. s = u @ s' \<and> c' = last_char c u \<and> accepts a c u s' g g1
           \<and> g' = (n, u) # g1)"
    by (rule ex_cong1, rule ex_cong1) auto
  also have "\<dots> \<longleftrightarrow> (\<exists>u. s = u @ s' \<and> c' = last_char c u \<and> accepts (Grp n a) c u s' g g')"
    by auto
  finally show ?case .
next
  case WordB
  then show ?case by (auto simp: last_char_def)
next
  case Bol
  then show ?case by (auto simp: last_char_def)
next
  case Eol
  then show ?case by (auto simp: last_char_def)
qed

lemma re_match_SomeD:
  assumes "re_match r s = Some m"
  shows "\<exists>u tl. s = u @ tl \<and> accepts r None u tl [] m"
proof -
  from assms obtain c' s' rest where "matches r (None, s, []) = (c', s', m) # rest"
    by (auto simp: re_match_def split: list.splits)
  then have "(c', s', m) \<in> set (matches r (None, s, []))"
    by simp
  then show ?thesis
    by (auto simp: in_matches)
qed

lemma re_match_None_iff:
  "re_match r s = None \<longleftrightarrow> (\<forall>u tl m. s = u @ tl \<longrightarrow> \<not> accepts r None u tl [] m)"
proof -
  have "re_match r s = None \<longleftrightarrow> matches r (None, s, []) = []"
    by (auto simp: re_match_def split: list.splits)
  also have "\<dots> \<longleftrightarrow> set (matches r (None, s, [])) = {}"
    by (simp only: set_empty)
  also have "\<dots> \<longleftrightarrow> (\<forall>c' s' m. (c', s', m) \<notin> set (matches r (None, s, [])))"
    by (simp only: set_eq_iff empty_iff split_paired_All) simp
  also have "\<dots> \<longleftrightarrow> (\<forall>u tl m. s = u @ tl \<longrightarrow> \<not> accepts r None u tl [] m)"
    by (auto simp: in_matches)
  finally show ?thesis .
qed

lemma accepts_seq_Cons [simp]:
  "accepts (seq (r # r' # rs)) c u rest g g' =
     (\<exists>u1 u2 g1. u = u1 @ u2 \<and> accepts r c u1 (u2 @ rest) g g1
        \<and> accepts (seq (r' # rs)) (last_char c u1) u2 rest g1 g')"
  by (simp add: seq_def)

lemma accepts_seq_single [simp]: "accepts (seq [r]) c u rest g g' = accepts r c u rest g g'"
  by (simp add: seq_def)

lemma pointer_match_sound:
  assumes "re_match rx_pointer s = Some m"
  shows "\<exists>a x ws k b tl. s = a @ x # ws @ k # b @ tl \<and> a \<noteq> [] \<and> star_or_amp k
     \<and> group m 1 = a @ [x] \<and> group m 2 = b"
  using re_match_SomeD [OF assms]
  apply (clarsimp simp: rx_pointer_def group_def)
  apply (intro exI conjI)
  apply (rule refl)
  apply simp_all
  done

subsection \<open>Declarations\<close>

lemma has_return_loop_iff: "has_return_loop ps \<longleftrightarrow> \<not> (\<exists>p \<in> set ps. is_out_string p)"
  by (induction ps) auto


subsection \<open>Weights\<close>

lemma wsum_Nil [simp]: "wsum w [] = 0"
  by (simp add: wsum_def)

lemma wsum_Cons [simp]: "wsum w (x # xs) = w x + wsum w xs"
  by (simp add: wsum_def)

lemma wsum_append [simp]: "wsum w (xs @ ys) = wsum w xs + wsum w ys"
  by (simp add: wsum_def)

lemma wsum_rev [simp]: "wsum w (rev xs) = wsum w xs"
  by (induction xs) auto

lemma wsum_dropWhile: "wsum w (dropWhile P xs) \<le> wsum w xs"
  by (induction xs) auto

lemma wsum_drop: "wsum w (drop n xs) \<le> wsum w xs"
proof -
  have "wsum w (take n xs @ drop n xs) = wsum w xs"
    by simp
  then show ?thesis
    unfolding wsum_append by linarith
qed

lemma wsum_strip: "wsum w (strip s) \<le> wsum w s"
proof -
  have "wsum w (strip s) \<le> wsum w (dropWhile is_space s)"
    unfolding strip_def wsum_rev using wsum_dropWhile [of w is_space "rev (dropWhile is_space s)"]
    by simp
  also have "\<dots> \<le> wsum w s"
    by (rule wsum_dropWhile)
  finally show ?thesis .
qed

lemma weight_wsum: "weight s = wsum unit_weight s"
  by (induction s) (auto simp: weight_def unit_weight_def)

lemma matches_suffix:
  assumes "matches r (c, s, g) = (c', s', g') # rest"
  shows "\<exists>u. s = u @ s'"
proof -
  from assms have "(c', s', g') \<in> set (matches r (c, s, g))"
    by simp
  then show ?thesis
    by (auto simp: in_matches)
qed

lemma wsum_re_sub_from:
  "wsum w repl = 0 \<Longrightarrow> wsum w (re_sub_from r repl c s) \<le> wsum w s"
proof (induction r repl c s rule: re_sub_from.induct)
  case (1 r repl c s)
  note assms = \<open>wsum w repl = 0\<close>
  show ?case
  proof (cases "matches r (c, s, [])")
    case Nil
    show ?thesis
    proof (cases s)
      case Nil
      with \<open>matches r (c, s, []) = []\<close> show ?thesis
        by (subst re_sub_from.simps) simp
    next
      case (Cons x xs)
      with \<open>matches r (c, s, []) = []\<close> "1.IH"(1) [of x xs] assms show ?thesis
        by (subst re_sub_from.simps) simp
    qed
  next
    case (Cons st rest)
    obtain c' s' g where st: "st = (c', s', g)"
      by (cases st) auto
    from Cons st have m: "matches r (c, s, []) = (c', s', g) # rest"
      by simp
    from matches_suffix [OF m] obtain u where u: "s = u @ s'"
      by blast
    show ?thesis
    proof (cases "length s' < length s")
      case True
      have "wsum w (re_sub_from r repl c' s') \<le> wsum w s'"
        using "1.IH"(2) [OF m _ _ True, of c' "(s', g)" g] assms by simp
      moreover have "re_sub_from r repl c s = repl @ re_sub_from r repl c' s'"
        using m True by (subst re_sub_from.simps) simp
      ultimately show ?thesis
        using assms u by simp
    next
      case False
      show ?thesis
      proof (cases s)
        case Nil
        have "re_sub_from r repl c s = repl"
          using m False Nil by (subst re_sub_from.simps) simp
        then show ?thesis
          using assms by simp
      next
        case (Cons x xs)
        have "wsum w (re_sub_from r repl (Some x) xs) \<le> wsum w xs"
          using "1.IH"(3) [OF m _ _ False Cons, of c' "(s', g)" g] assms by simp
        moreover have "re_sub_from r repl c s = repl @ x # re_sub_from r repl (Some x) xs"
          using m False Cons by (subst re_sub_from.simps) simp
        ultimately show ?thesis
          using assms Cons by simp
      qed
    qed
  qed
qed

lemma wsum_re_sub: "wsum w repl = 0 \<Longrightarrow> wsum w (re_sub r repl s) \<le> wsum w s"
  unfolding re_sub_def by (rule wsum_re_sub_from)


lemma neutral_unit_weight: "neutral unit_weight"
  by (simp add: neutral_def unit_weight_def)

lemma wsum_strip_keywords: "wsum w (strip_keywords s) \<le> wsum w s"
proof -
  have e: "wsum w [] = 0" by simp
  note sub = wsum_re_sub [OF e]
  show ?thesis
    unfolding strip_keywords_def Let_def
    by (rule order_trans [OF sub] order_trans [OF wsum_strip] order_refl)+
qed

lemma wsum_char_p_rule: "neutral w \<Longrightarrow> wsum w (char_p_rule s) \<le> wsum w s"
  by (simp add: char_p_rule_def neutral_def)

lemma wsum_primitive_rule: "neutral w \<Longrightarrow> wsum w (primitive_rule s) \<le> wsum w s"
  by (simp add: primitive_rule_def neutral_def)

lemma wsum_abbreviate:
  assumes "neutral w"
  shows "wsum w (abbreviate s) \<le> wsum w s"
proof -
  have s0: "\<And>r x. wsum w (re_sub r [] x) \<le> wsum w x"
    by (rule wsum_re_sub) simp
  have s8: "\<And>r x. wsum w (re_sub r ''8'' x) \<le> wsum w x"
    by (rule wsum_re_sub) (use assms in \<open>simp add: neutral_def\<close>)
  have s16: "\<And>r x. wsum w (re_sub r ''16'' x) \<le> wsum w x"
    by (rule wsum_re_sub) (use assms in \<open>simp add: neutral_def\<close>)
  have s32: "\<And>r x. wsum w (re_sub r ''32'' x) \<le> wsum w x"
    by (rule wsum_re_sub) (use assms in \<open>simp add: neutral_def\<close>)
  have s64: "\<And>r x. wsum w (re_sub r ''64'' x) \<le> wsum w x"
    by (rule wsum_re_sub) (use assms in \<open>simp add: neutral_def\<close>)
  have su: "\<And>r x. wsum w (re_sub r ''u'' x) \<le> wsum w x"
    by (rule wsum_re_sub) (use assms in \<open>simp add: neutral_def\<close>)
  have sl: "\<And>r x. wsum w (re_sub r ''longlong'' x) \<le> wsum w x"
    by (rule wsum_re_sub) (use assms in \<open>simp add: neutral_def\<close>)
  note cp = wsum_char_p_rule [OF assms]
  note pr = wsum_primitive_rule [OF assms]
  show ?thesis
    unfolding abbreviate_def Let_def
    by (rule order_trans [OF s0] order_trans [OF pr] order_trans [OF sl] order_trans [OF cp]
        order_trans [OF su] order_trans [OF s64] order_trans [OF s32] order_trans [OF s16]
        order_trans [OF s8] order_refl)+
qed

lemma abbreviate_unsigned_int: "abbreviate ''unsigned int'' = ''c_uint''"
  by code_simp

lemma wsum_canonical_spelling:
  assumes "neutral w"
  shows "wsum w (canonical_spelling s) \<le> wsum w s"
proof (cases "strip_keywords s = ''unsigned''")
  case True
  then have "canonical_spelling s = ''c_uint''"
    by (simp add: canonical_spelling_def implicit_int_def abbreviate_unsigned_int)
  then have "wsum w (canonical_spelling s) = w (CHR ''t'')"
    using assms by (simp add: neutral_def)
  also have "\<dots> \<le> w (CHR ''s'')"
    using assms by (simp add: neutral_def)
  also have "\<dots> \<le> wsum w (strip_keywords s)"
    by (simp add: True)
  also have "\<dots> \<le> wsum w s"
    by (rule wsum_strip_keywords)
  finally show ?thesis .
next
  case False
  then have "canonical_spelling s = abbreviate (strip_keywords s)"
    by (simp add: canonical_spelling_def implicit_int_def)
  then show ?thesis
    using wsum_abbreviate [OF assms, of "strip_keywords s"] wsum_strip_keywords [of w s]
    by simp
qed

lemma wsum_finish_spelling:
  assumes "neutral w"
  shows "wsum w (finish_spelling s) \<le> wsum w s"
proof -
  define r1 where "r1 = (if s = ''void'' then ''None'' else s)"
  define r2 where "r2 = (if r1 = ''POINTER(None)'' then ''c_void_p'' else r1)"
  define r3 where "r3 = re_sub rx_bool ''openvr_bool'' r2"
  have 1: "wsum w r1 \<le> wsum w s"
    using assms by (simp add: r1_def neutral_def)
  have 2: "wsum w r2 \<le> wsum w r1"
    using assms by (simp add: r2_def neutral_def)
  have 3: "wsum w r3 \<le> wsum w r2"
    unfolding r3_def by (rule wsum_re_sub) (use assms in \<open>simp add: neutral_def\<close>)
  have "finish_spelling s = (if startswith r3 ''vr::'' then drop 4 r3 else r3)"
    by (simp add: finish_spelling_def Let_def r1_def r2_def r3_def)
  then have "wsum w (finish_spelling s) \<le> wsum w r3"
    using wsum_drop [of w 4 r3] by simp
  with 1 2 3 show ?thesis
    by linarith
qed


lemma ptr_match_sound:
  assumes "re_match rx_ptr s = Some m"
  shows "\<exists>mid tl. s = group m 1 @ ''ptr'' @ mid @ group m 2 @ tl \<and> group m 1 \<noteq> []"
  using re_match_SomeD [OF assms]
  apply (clarsimp simp: rx_ptr_def lit_def group_def)
  apply (erule disjE)
  subgoal for tl u1 u1a u2b g1
    apply clarsimp
    apply (rule exI [where x = "''_t''"])
    apply (rule exI [where x = tl])
    apply simp
    done
  subgoal for tl u1 u1a u2b g1
    apply clarsimp
    apply (rule exI [where x = "[]"])
    apply (rule exI [where x = tl])
    apply simp
    done
  done

lemma array_match_sound:
  assumes "re_match rx_array s = Some m"
  shows "\<exists>a x ws ds b tl. s = a @ x # ws @ CHR ''['' # ds @ CHR '']'' # b @ tl \<and> a \<noteq> []
     \<and> (\<forall>d \<in> set ds. is_digit d)
     \<and> group m 1 = a @ [x] \<and> group m 2 = ds \<and> group m 3 = b"
  using re_match_SomeD [OF assms]
  apply (clarsimp simp: rx_array_def group_def)
  apply (intro exI conjI)
  apply (rule refl)
  done

lemma loop_match_wsum:
  assumes "re_match r s = Some m" and "r = rx_pointer \<or> r = rx_ptr"
  shows "wsum w (group m 1) + wsum w (group m 2) \<le> wsum w s"
proof -
  from assms(2) show ?thesis
  proof
    assume "r = rx_pointer"
    with assms(1) pointer_match_sound [of s m] show ?thesis
      by auto
  next
    assume "r = rx_ptr"
    with assms(1) ptr_match_sound [of s m] obtain mid tl
      where "s = group m 1 @ ''ptr'' @ mid @ group m 2 @ tl"
      by blast
    then have "wsum w s = wsum w (group m 1 @ ''ptr'' @ mid @ group m 2 @ tl)"
      by simp
    then show ?thesis
      by simp
  qed
qed

lemma loop_match_weight:
  assumes "re_match r s = Some m" and "r = rx_pointer \<or> r = rx_ptr"
  shows "weight (group m 1) + weight (group m 2) < weight s"
proof -
  from assms(2) show ?thesis
  proof
    assume "r = rx_pointer"
    with assms(1) pointer_match_sound [of s m] show ?thesis
      by (auto simp: weight_wsum unit_weight_def star_or_amp_def)
  next
    assume "r = rx_ptr"
    with assms(1) ptr_match_sound [of s m] obtain mid tl
      where "s = group m 1 @ ''ptr'' @ mid @ group m 2 @ tl"
      by blast
    then have "wsum unit_weight s = wsum unit_weight (group m 1 @ ''ptr'' @ mid @ group m 2 @ tl)"
      by simp
    then show ?thesis
      by (simp add: weight_wsum unit_weight_def)
  qed
qed

lemma array_match_wsum:
  assumes "re_match rx_array s = Some m"
  shows "wsum w (group m 1 @ group m 3) + w (CHR ''['') + wsum w (group m 2) \<le> wsum w s"
  using array_match_sound [OF assms] by auto

lemma array_match_weight:
  assumes "re_match rx_array s = Some m"
  shows "weight (group m 1 @ group m 3) < weight s"
  using array_match_wsum [OF assms, of unit_weight]
  by (simp add: weight_wsum unit_weight_def)


subsection \<open>The translator returns\<close>

lemma fuel_mono_aux:
  "(\<forall>s b r. translate_fuel n s b = Some r \<longrightarrow> translate_fuel (n + d) s b = Some r)
   \<and> (\<forall>rx x r. rewrite_loop n rx x = Some r \<longrightarrow> rewrite_loop (n + d) rx x = Some r)"
proof (induction n)
  case 0
  show ?case by simp
next
  case (Suc n)
  from Suc have t: "\<And>s b r. translate_fuel n s b = Some r \<Longrightarrow> translate_fuel (n + d) s b = Some r"
    and l: "\<And>rx x r. rewrite_loop n rx x = Some r \<Longrightarrow> rewrite_loop (n + d) rx x = Some r"
    by blast+
  show ?case
  proof (intro conjI allI impI)
    fix s b r
    assume a: "translate_fuel (Suc n) s b = Some r"
    then obtain r1 where r1: "rewrite_loop n rx_pointer (canonical_spelling s) = Some r1"
      by (auto split: option.splits)
    with a obtain r2 where r2: "rewrite_loop n rx_ptr r1 = Some r2"
      by (auto split: option.splits)
    show "translate_fuel (Suc n + d) s b = Some r"
    proof (cases "re_match rx_array (finish_spelling r2)")
      case None
      with a r1 r2 l [OF r1] l [OF r2] show ?thesis
        by (simp add: Let_def)
    next
      case (Some m)
      with a r1 r2 obtain t0 where t0: "translate_fuel n (group m 1 @ group m 3) True = Some t0"
        by (auto simp: Let_def split: option.splits)
      with a r1 r2 Some l [OF r1] l [OF r2] t [OF t0] show ?thesis
        by (simp add: Let_def)
    qed
  next
    fix rx x r
    assume a: "rewrite_loop (Suc n) rx x = Some r"
    show "rewrite_loop (Suc n + d) rx x = Some r"
    proof (cases "re_match rx x")
      case None
      with a show ?thesis by simp
    next
      case (Some m)
      with a obtain p where p: "translate_fuel n (group m 1) False = Some p"
        by (auto split: option.splits)
      with a Some have "rewrite_loop n rx (''POINTER('' @ p @ '')'' @ group m 2) = Some r"
        by simp
      from l [OF this] t [OF p] Some show ?thesis
        by simp
    qed
  qed
qed

lemma translate_fuel_mono:
  "translate_fuel n s b = Some r \<Longrightarrow> n \<le> n' \<Longrightarrow> translate_fuel n' s b = Some r"
  using fuel_mono_aux [of n "n' - n"] by auto

lemma rewrite_loop_mono:
  "rewrite_loop n rx x = Some r \<Longrightarrow> n \<le> n' \<Longrightarrow> rewrite_loop n' rx x = Some r"
  using fuel_mono_aux [of n "n' - n"] by auto

lemma wsum_fuel_aux:
  assumes "neutral w"
  shows "(\<forall>s b r. translate_fuel n s b = Some r \<longrightarrow> wsum w r \<le> wsum w s)
   \<and> (\<forall>rx x r. (rx = rx_pointer \<or> rx = rx_ptr) \<longrightarrow> rewrite_loop n rx x = Some r
        \<longrightarrow> wsum w r \<le> wsum w x)"
proof (induction n)
  case 0
  show ?case by simp
next
  case (Suc n)
  from Suc have t: "\<And>s b r. translate_fuel n s b = Some r \<Longrightarrow> wsum w r \<le> wsum w s"
    and l: "\<And>rx x r. rx = rx_pointer \<or> rx = rx_ptr \<Longrightarrow> rewrite_loop n rx x = Some r
        \<Longrightarrow> wsum w r \<le> wsum w x"
    by blast+
  have z: "wsum w ''POINTER('' = 0" "wsum w '')'' = 0" "wsum w ''('' = 0" "w (CHR '' '') = 0"
    "w (CHR ''*'') \<le> w (CHR ''['')"
    using assms by (simp_all add: neutral_def)
  show ?case
  proof (intro conjI allI impI)
    fix s b r
    assume a: "translate_fuel (Suc n) s b = Some r"
    then obtain r1 where r1: "rewrite_loop n rx_pointer (canonical_spelling s) = Some r1"
      by (auto split: option.splits)
    with a obtain r2 where r2: "rewrite_loop n rx_ptr r1 = Some r2"
      by (auto split: option.splits)
    have "wsum w r1 \<le> wsum w (canonical_spelling s)"
      using l [OF _ r1] by simp
    also have "\<dots> \<le> wsum w s"
      by (rule wsum_canonical_spelling [OF assms])
    finally have w1: "wsum w r1 \<le> wsum w s" .
    have "wsum w r2 \<le> wsum w r1"
      using l [OF _ r2] by simp
    with w1 wsum_finish_spelling [OF assms, of r2]
    have wf: "wsum w (finish_spelling r2) \<le> wsum w s"
      by linarith
    show "wsum w r \<le> wsum w s"
    proof (cases "re_match rx_array (finish_spelling r2)")
      case None
      with a r1 r2 wf show ?thesis
        by (simp add: Let_def)
    next
      case (Some m)
      with a r1 r2 obtain t0 where t0: "translate_fuel n (group m 1 @ group m 3) True = Some t0"
        by (auto simp: Let_def split: option.splits)
      with a r1 r2 Some
      have r: "r = (if b then ''('' @ (t0 @ '' * '' @ group m 2) @ '')'' else t0 @ '' * '' @ group m 2)"
        by (auto simp: Let_def)
      have "wsum w r = wsum w t0 + w (CHR ''*'') + wsum w (group m 2)"
        using z by (simp add: r)
      also have "\<dots> \<le> wsum w (group m 1 @ group m 3) + w (CHR ''['') + wsum w (group m 2)"
        using t [OF t0] z by linarith
      also have "\<dots> \<le> wsum w (finish_spelling r2)"
        by (rule array_match_wsum [OF Some])
      finally show ?thesis
        using wf by linarith
    qed
  next
    fix rx x r
    assume rx: "rx = rx_pointer \<or> rx = rx_ptr" and a: "rewrite_loop (Suc n) rx x = Some r"
    show "wsum w r \<le> wsum w x"
    proof (cases "re_match rx x")
      case None
      with a show ?thesis by simp
    next
      case (Some m)
      with a obtain p where p: "translate_fuel n (group m 1) False = Some p"
        by (auto split: option.splits)
      with a Some have "rewrite_loop n rx (''POINTER('' @ p @ '')'' @ group m 2) = Some r"
        by simp
      from l [OF rx this] have "wsum w r \<le> wsum w p + wsum w (group m 2)"
        using z by simp
      with t [OF p] loop_match_wsum [OF Some rx, of w] show ?thesis
        by linarith
    qed
  qed
qed

lemma wsum_translate_fuel:
  "neutral w \<Longrightarrow> translate_fuel n s b = Some r \<Longrightarrow> wsum w r \<le> wsum w s"
  using wsum_fuel_aux [of w n] by blast

lemma wsum_rewrite_loop:
  "neutral w \<Longrightarrow> rx = rx_pointer \<or> rx = rx_ptr \<Longrightarrow> rewrite_loop n rx x = Some r
     \<Longrightarrow> wsum w r \<le> wsum w x"
  using wsum_fuel_aux [of w n] by blast

lemma weight_translate_fuel: "translate_fuel n s b = Some r \<Longrightarrow> weight r \<le> weight s"
  unfolding weight_wsum by (rule wsum_translate_fuel [OF neutral_unit_weight])

lemma weight_rewrite_loop:
  "rx = rx_pointer \<or> rx = rx_ptr \<Longrightarrow> rewrite_loop n rx x = Some r \<Longrightarrow> weight r \<le> weight x"
  unfolding weight_wsum by (rule wsum_rewrite_loop [OF neutral_unit_weight])


lemma weight_pointer_wrap: "weight (''POINTER('' @ p @ '')'' @ g) = weight p + weight g"
  by (simp add: weight_def)

lemma total_aux:
  "(\<forall>rx x. (rx = rx_pointer \<or> rx = rx_ptr) \<longrightarrow> weight x \<le> k
       \<longrightarrow> (\<exists>r. rewrite_loop (2 * k + 1) rx x = Some r))
   \<and> (\<forall>s b. weight s \<le> k \<longrightarrow> (\<exists>r. translate_fuel (2 * k + 2) s b = Some r))"
proof (induction k rule: less_induct)
  case (less k)
  then have t: "\<And>j s b. j < k \<Longrightarrow> weight s \<le> j \<Longrightarrow> \<exists>r. translate_fuel (2 * j + 2) s b = Some r"
    and l: "\<And>j rx x. j < k \<Longrightarrow> rx = rx_pointer \<or> rx = rx_ptr \<Longrightarrow> weight x \<le> j
        \<Longrightarrow> \<exists>r. rewrite_loop (2 * j + 1) rx x = Some r"
    by blast+
  have loop: "\<exists>r. rewrite_loop (2 * k + 1) rx x = Some r"
    if rx: "rx = rx_pointer \<or> rx = rx_ptr" and x: "weight x \<le> k" for rx x
  proof (cases "re_match rx x")
    case None
    then show ?thesis by simp
  next
    case (Some m)
    from loop_match_weight [OF Some rx] x
    have g: "weight (group m 1) + weight (group m 2) \<le> k - 1" and k: "0 < k"
      by linarith+
    from k have k2: "2 * k = 2 * (k - 1) + 2"
      by simp
    from t [of "k - 1" "group m 1" False] g k
    obtain p where p: "translate_fuel (2 * k) (group m 1) False = Some p"
      unfolding k2 by auto
    from weight_translate_fuel [OF p] g
    have "weight (''POINTER('' @ p @ '')'' @ group m 2) \<le> k - 1"
      unfolding weight_pointer_wrap by linarith
    from l [OF _ rx this] k
    obtain r where "rewrite_loop (2 * (k - 1) + 1) rx (''POINTER('' @ p @ '')'' @ group m 2) = Some r"
      by auto
    from rewrite_loop_mono [OF this, of "2 * k"] k
    have "rewrite_loop (2 * k) rx (''POINTER('' @ p @ '')'' @ group m 2) = Some r"
      by simp
    with Some p show ?thesis
      by simp
  qed
  have tr: "\<exists>r. translate_fuel (2 * k + 2) s b = Some r" if s: "weight s \<le> k" for s b
  proof -
    have "weight (canonical_spelling s) \<le> weight s"
      unfolding weight_wsum by (rule wsum_canonical_spelling [OF neutral_unit_weight])
    with s have "weight (canonical_spelling s) \<le> k"
      by linarith
    from loop [OF _ this, of rx_pointer]
    obtain r1 where r1: "rewrite_loop (2 * k + 1) rx_pointer (canonical_spelling s) = Some r1"
      by auto
    from weight_rewrite_loop [OF _ r1] \<open>weight (canonical_spelling s) \<le> k\<close>
    have w1: "weight r1 \<le> k"
      by simp
    from loop [OF _ this, of rx_ptr]
    obtain r2 where r2: "rewrite_loop (2 * k + 1) rx_ptr r1 = Some r2"
      by auto
    from weight_rewrite_loop [OF _ r2] w1 have w2: "weight r2 \<le> k"
      by simp
    have "weight (finish_spelling r2) \<le> weight r2"
      unfolding weight_wsum by (rule wsum_finish_spelling [OF neutral_unit_weight])
    with w2 have wf: "weight (finish_spelling r2) \<le> k"
      by linarith
    have e: "2 * k + 2 = Suc (2 * k + 1)"
      by simp
    show ?thesis
    proof (cases "re_match rx_array (finish_spelling r2)")
      case None
      with r1 r2 show ?thesis
        unfolding e by (simp add: Let_def)
    next
      case (Some m)
      from array_match_weight [OF Some] wf
      have g: "weight (group m 1 @ group m 3) \<le> k - 1" and k: "0 < k"
        by linarith+
      from t [of "k - 1" "group m 1 @ group m 3" True] g k
      obtain t0 where "translate_fuel (2 * (k - 1) + 2) (group m 1 @ group m 3) True = Some t0"
        by auto
      from translate_fuel_mono [OF this, of "2 * k + 1"] k
      have "translate_fuel (2 * k + 1) (group m 1 @ group m 3) True = Some t0"
        by simp
      with Some r1 r2 show ?thesis
        unfolding e by (simp add: Let_def)
    qed
  qed
  from loop tr show ?case
    by blast
qed

lemma translate_fuel_total: "\<exists>r. translate_fuel (2 * weight s + 2) s b = Some r"
  using total_aux [of "weight s"] by simp

lemma translate_type_eq:
  "translate_fuel n s b = Some r \<Longrightarrow> translate_type s b = r"
proof -
  assume a: "translate_fuel n s b = Some r"
  obtain r' where r': "translate_fuel (2 * weight s + 2) s b = Some r'"
    using translate_fuel_total by blast
  have "r' = r"
  proof (cases "n \<le> 2 * weight s + 2")
    case True
    from translate_fuel_mono [OF a True] r' show ?thesis by simp
  next
    case False
    then have "2 * weight s + 2 \<le> n" by simp
    from translate_fuel_mono [OF r' this] a show ?thesis by simp
  qed
  with r' show ?thesis
    by (simp add: translate_type_def)
qed


lemma rewrite_loop_fixpoint:
  "rewrite_loop n rx x = Some r \<Longrightarrow> re_match rx r = None"
proof (induction n arbitrary: x)
  case 0
  then show ?case by simp
next
  case (Suc n)
  show ?case
  proof (cases "re_match rx x")
    case None
    with Suc.prems show ?thesis by simp
  next
    case (Some m)
    with Suc.prems obtain p where p: "translate_fuel n (group m 1) False = Some p"
      by (auto split: option.splits)
    with Suc.prems Some have "rewrite_loop n rx (''POINTER('' @ p @ '')'' @ group m 2) = Some r"
      by simp
    then show ?thesis
      by (rule Suc.IH)
  qed
qed

lemma rewrite_loop_total:
  assumes "rx = rx_pointer \<or> rx = rx_ptr"
  shows "\<exists>r. rewrite_loop (2 * weight x + 1) rx x = Some r \<and> re_match rx r = None"
proof -
  have "\<exists>r. rewrite_loop (2 * weight x + 1) rx x = Some r"
    using total_aux [of "weight x"] assms by blast
  then obtain r where "rewrite_loop (2 * weight x + 1) rx x = Some r"
    by blast
  with rewrite_loop_fixpoint [OF this] show ?thesis
    by simp
qed

subsection \<open>Strings that the rewrites leave alone\<close>

lemma matches_empty_iff:
  "matches r (c, s, g) = [] \<longleftrightarrow> (\<forall>u rest g'. s = u @ rest \<longrightarrow> \<not> accepts r c u rest g g')"
proof -
  have "matches r (c, s, g) = [] \<longleftrightarrow> set (matches r (c, s, g)) = {}"
    by (simp only: set_empty)
  also have "\<dots> \<longleftrightarrow> (\<forall>c' s' g'. (c', s', g') \<notin> set (matches r (c, s, g)))"
    by (simp only: set_eq_iff empty_iff split_paired_All) simp
  also have "\<dots> \<longleftrightarrow> (\<forall>u rest g'. s = u @ rest \<longrightarrow> \<not> accepts r c u rest g g')"
    by (auto simp: in_matches)
  finally show ?thesis .
qed

lemma re_sub_from_id:
  "(\<And>a u rest g'. s = a @ u @ rest \<Longrightarrow> \<not> accepts r (last_char c a) u rest [] g')
     \<Longrightarrow> re_sub_from r repl c s = s"
proof (induction s arbitrary: c)
  case Nil
  have "matches r (c, [], []) = []"
    unfolding matches_empty_iff using Nil [of "[]"] by (auto simp: last_char_def)
  then show ?case
    by (subst re_sub_from.simps) simp
next
  case (Cons x xs)
  have m: "matches r (c, x # xs, []) = []"
    unfolding matches_empty_iff using Cons.prems [of "[]"] by (auto simp: last_char_def)
  have "re_sub_from r repl (Some x) xs = xs"
  proof (rule Cons.IH)
    fix a u rest g'
    assume "xs = a @ u @ rest"
    then have "x # xs = (x # a) @ u @ rest"
      by simp
    from Cons.prems [OF this, of g']
    show "\<not> accepts r (last_char (Some x) a) u rest [] g'"
      by (cases "a = []") (simp_all add: last_char_def)
  qed
  with m show ?case
    by (subst re_sub_from.simps) simp
qed

lemma re_sub_id_char:
  assumes "\<And>c u rest g'. accepts r c u rest [] g' \<Longrightarrow> \<exists>x \<in> set u. P x"
    and "\<forall>x \<in> set s. \<not> P x"
  shows "re_sub r repl s = s"
  unfolding re_sub_def
proof (rule re_sub_from_id)
  fix a u rest g'
  assume "s = a @ u @ rest"
  with assms(2) have "\<forall>x \<in> set u. \<not> P x"
    by simp
  with assms(1) show "\<not> accepts r (last_char None a) u rest [] g'"
    by blast
qed

lemma re_match_None_char:
  assumes "\<And>u rest g'. accepts r None u rest [] g' \<Longrightarrow> \<exists>x \<in> set u. P x"
    and "\<forall>x \<in> set s. \<not> P x"
  shows "re_match r s = None"
  unfolding re_match_None_iff
proof (intro allI impI)
  fix u tl m
  assume "s = u @ tl"
  with assms(2) have "\<forall>x \<in> set u. \<not> P x"
    by simp
  with assms(1) show "\<not> accepts r None u tl [] m"
    by blast
qed

lemma no_word_start_append:
  "no_word_start P c (a @ b) = (no_word_start P c a \<and> no_word_start P (last_char c a) b)"
  by (induction a arbitrary: c) (auto simp: last_char_def)

lemma re_sub_id_word_start:
  assumes "\<And>c u rest g'. accepts r c u rest [] g' \<Longrightarrow> \<not> word_at c \<and> (\<exists>x xs. u = x # xs \<and> P x)"
    and "no_word_start P None s"
  shows "re_sub r repl s = s"
  unfolding re_sub_def
proof (rule re_sub_from_id)
  fix a u rest g'
  assume s: "s = a @ u @ rest"
  show "\<not> accepts r (last_char None a) u rest [] g'"
  proof
    assume "accepts r (last_char None a) u rest [] g'"
    from assms(1) [OF this] obtain x xs where "\<not> word_at (last_char None a)" "u = x # xs" "P x"
      by blast
    with assms(2) s show False
      by (simp add: no_word_start_append)
  qed
qed

lemma needs_space:
  "accepts rx_const_pre c u rest g g' \<Longrightarrow> \<exists>x \<in> set u. is_space x"
  "accepts rx_const_post c u rest g g' \<Longrightarrow> \<exists>x \<in> set u. is_space x"
  "accepts rx_struct c u rest g g' \<Longrightarrow> \<exists>x \<in> set u. is_space x"
  "accepts rx_enum c u rest g g' \<Longrightarrow> \<exists>x \<in> set u. is_space x"
  "accepts rx_union c u rest g g' \<Longrightarrow> \<exists>x \<in> set u. is_space x"
  "accepts rx_unsigned c u rest g g' \<Longrightarrow> \<exists>x \<in> set u. is_space x"
  "accepts rx_long_long c u rest g g' \<Longrightarrow> \<exists>x \<in> set u. is_space x"
  by (auto simp: rx_const_pre_def rx_const_post_def rx_struct_def rx_enum_def rx_union_def
      rx_unsigned_def rx_long_long_def lit_def neq_Nil_conv)

lemma needs_digit:
  "w \<in> {''8'', ''16'', ''32'', ''64''} \<Longrightarrow> accepts (rx_width w) c u rest g g'
     \<Longrightarrow> \<exists>x \<in> set u. is_digit x"
  by (auto simp: rx_width_def lit_def is_digit_def)

lemma needs_V: "accepts rx_VR c u rest g g' \<Longrightarrow> \<exists>x \<in> set u. x = CHR ''V''"
  by (auto simp: rx_VR_def lit_def)

lemma needs_p: "accepts rx_ptr c u rest g g' \<Longrightarrow> \<exists>x \<in> set u. x = CHR ''p''"
  by (auto simp: rx_ptr_def lit_def)

lemma needs_lbracket: "accepts rx_array c u rest g g' \<Longrightarrow> \<exists>x \<in> set u. x = CHR ''[''"
  by (auto simp: rx_array_def)

lemma needs_marker: "accepts rx_pointer c u rest g g' \<Longrightarrow> \<exists>x \<in> set u. star_or_amp x"
  by (auto simp: rx_pointer_def)

lemma bool_word_start:
  "accepts rx_bool c u rest g g' \<Longrightarrow> \<not> word_at c \<and> (\<exists>x xs. u = x # xs \<and> x = CHR ''b'')"
  by (auto simp: rx_bool_def lit_def word_at_def next_char_def is_word_def)


subsection \<open>The pointer pattern on a name followed by stars\<close>

lemma many_two:
  "\<forall>x \<in> set u. p x \<Longrightarrow> p y \<Longrightarrow> \<not> p z \<Longrightarrow>
     \<exists>ys. many p c (u @ y # z # rest) = (Some y, z # rest) # (last_char c u, y # z # rest) # ys
        \<and> (u \<noteq> [] \<longrightarrow> ys \<noteq> [])"
proof (induction u arbitrary: c)
  case Nil
  then show ?case by (simp add: last_char_def)
next
  case (Cons x u)
  from Cons.IH [of "Some x"] Cons.prems obtain ys where
    "many p (Some x) (u @ y # z # rest) = (Some y, z # rest) # (last_char (Some x) u, y # z # rest) # ys"
    by auto
  with Cons.prems show ?case
    by (simp add: last_char_def)
qed

lemma many_all:
  "\<forall>x \<in> set v. p x \<Longrightarrow> \<exists>ys. many p c v = (last_char c v, []) # ys"
proof (induction v arbitrary: c)
  case Nil
  then show ?case by (simp add: last_char_def)
next
  case (Cons x v)
  from Cons.IH [of "Some x"] Cons.prems obtain ys where
    "many p (Some x) v = (last_char (Some x) v, []) # ys"
    by auto
  with Cons.prems show ?case
    by (simp add: last_char_def)
qed

lemma plus_two:
  assumes "\<forall>x \<in> set u. p x" "p y" "\<not> p z" "u \<noteq> []"
  shows "\<exists>ys. matches (Plus p) (c, u @ y # z # rest, g)
     = (Some y, z # rest, g) # (last_char c u, y # z # rest, g) # ys"
proof -
  from many_two [OF assms(1-3), of c rest] assms(4) obtain ys where
    ys: "many p c (u @ y # z # rest) = (Some y, z # rest) # (last_char c u, y # z # rest) # ys"
    "ys \<noteq> []"
    by blast
  then show ?thesis
    by simp
qed

lemma pointer_tail_star:
  assumes "\<forall>x \<in> set v. any_char x"
  shows "\<exists>c' ys. matches (seq [Star is_space, Cls star_or_amp, Grp 2 (Star any_char), Eol])
       (c, CHR ''*'' # v, g) = (c', [], (2, v) # g) # ys"
proof -
  from many_all [OF assms, of "Some (CHR ''*'')"] obtain ys where
    "many any_char (Some (CHR ''*'')) v = (last_char (Some (CHR ''*'')) v, []) # ys"
    by blast
  then show ?thesis
    by (simp add: seq_def is_space_def star_or_amp_def)
qed

lemma pointer_tail_end:
  "matches (seq [Star is_space, Cls star_or_amp, Grp 2 (Star any_char), Eol]) (c, [], g) = []"
  by (simp add: seq_def)

lemma rx_pointer_split:
  "rx_pointer = Seq Bol (Seq (Grp 1 (Seq (Plus not_star) (Cls not_space)))
     (seq [Star is_space, Cls star_or_amp, Grp 2 (Star any_char), Eol]))"
  by (simp add: rx_pointer_def seq_def)

lemma pointer_group_two:
  assumes "\<forall>x \<in> set u. not_star x" "u \<noteq> []" "not_star y" "not_space y"
  shows "\<exists>gs. matches (Grp 1 (Seq (Plus not_star) (Cls not_space))) (None, u @ y # CHR ''*'' # rest, [])
     = (Some (CHR ''*''), rest, [(1, u @ [y, CHR ''*''])])
       # (Some y, CHR ''*'' # rest, [(1, u @ [y])]) # gs"
proof -
  have ns: "\<not> not_star (CHR ''*'')"
    by (simp add: not_star_def)
  from plus_two [OF assms(1) assms(3) ns assms(2), of None rest "[]"] obtain ys where
    ys: "matches (Plus not_star) (None, u @ y # CHR ''*'' # rest, [])
       = (Some y, CHR ''*'' # rest, []) # (last_char None u, y # CHR ''*'' # rest, []) # ys"
    by blast
  have sp: "not_space (CHR ''*'')"
    by (simp add: not_space_def is_space_def)
  show ?thesis
    by (simp del: matches.simps(4) add: ys assms(4) sp)
qed

lemma pointer_first:
  assumes "matches (Grp 1 (Seq (Plus not_star) (Cls not_space))) (None, S, []) = A1 # gs"
    and "matches (seq [Star is_space, Cls star_or_amp, Grp 2 (Star any_char), Eol]) A1
       = (c', s', m) # zs"
  shows "re_match rx_pointer S = Some m"
  unfolding re_match_def rx_pointer_split using assms by simp

lemma pointer_second:
  assumes "matches (Grp 1 (Seq (Plus not_star) (Cls not_space))) (None, S, []) = A1 # A2 # gs"
    and "matches (seq [Star is_space, Cls star_or_amp, Grp 2 (Star any_char), Eol]) A1 = []"
    and "matches (seq [Star is_space, Cls star_or_amp, Grp 2 (Star any_char), Eol]) A2
       = (c', s', m) # zs"
  shows "re_match rx_pointer S = Some m"
  unfolding re_match_def rx_pointer_split using assms by simp

lemma pointer_match_one:
  assumes "\<forall>x \<in> set u. not_star x" "u \<noteq> []" "not_star y" "not_space y"
  shows "re_match rx_pointer (u @ [y] @ ''*'') = Some [(2, []), (1, u @ [y])]"
proof -
  from pointer_group_two [OF assms, of "[]"] obtain gs where
    g: "matches (Grp 1 (Seq (Plus not_star) (Cls not_space))) (None, u @ y # CHR ''*'' # [], [])
     = (Some (CHR ''*''), [], [(1, u @ [y, CHR ''*''])])
       # (Some y, CHR ''*'' # [], [(1, u @ [y])]) # gs"
    by blast
  from pointer_tail_star [of "[]" "Some y" "[(1, u @ [y])]"] obtain c' zs where
    t: "matches (seq [Star is_space, Cls star_or_amp, Grp 2 (Star any_char), Eol])
       (Some y, CHR ''*'' # [], [(1, u @ [y])]) = (c', [], [(2, []), (1, u @ [y])]) # zs"
    by auto
  from pointer_second [OF g pointer_tail_end t] show ?thesis
    by simp
qed

lemma pointer_match_two:
  assumes "\<forall>x \<in> set u. not_star x" "u \<noteq> []" "not_star y" "not_space y"
  shows "re_match rx_pointer (u @ [y] @ ''**'' @ replicate n (CHR ''*''))
     = Some [(2, replicate n (CHR ''*'')), (1, u @ [y] @ ''*'')]"
proof -
  let ?v = "replicate n (CHR ''*'')"
  from pointer_group_two [OF assms, of "CHR ''*'' # ?v"] obtain gs where
    g: "matches (Grp 1 (Seq (Plus not_star) (Cls not_space))) (None, u @ y # CHR ''*'' # CHR ''*'' # ?v, [])
     = (Some (CHR ''*''), CHR ''*'' # ?v, [(1, u @ [y, CHR ''*''])])
       # (Some y, CHR ''*'' # CHR ''*'' # ?v, [(1, u @ [y])]) # gs"
    by blast
  have "\<forall>x \<in> set ?v. any_char x"
    by (simp add: any_char_def newline_def)
  from pointer_tail_star [OF this, of "Some (CHR ''*'')" "[(1, u @ [y, CHR ''*''])]"] obtain c' zs where
    t: "matches (seq [Star is_space, Cls star_or_amp, Grp 2 (Star any_char), Eol])
       (Some (CHR ''*''), CHR ''*'' # ?v, [(1, u @ [y, CHR ''*''])])
       = (c', [], [(2, ?v), (1, u @ [y, CHR ''*''])]) # zs"
    by auto
  from pointer_first [OF g t] show ?thesis
    by simp
qed


subsection \<open>Pointer types over the primitive roots\<close>

lemma inert_char_facts:
  "inert_char x \<Longrightarrow> \<not> is_space x \<and> \<not> is_digit x \<and> x \<noteq> CHR ''V'' \<and> x \<noteq> CHR ''p''
     \<and> x \<noteq> CHR ''['' \<and> \<not> star_or_amp x \<and> not_star x \<and> not_space x \<and> x \<noteq> CHR ''v''"
  by (auto simp: inert_char_def is_space_def is_digit_def star_or_amp_def not_star_def
      not_space_def)

lemma star_facts:
  "\<not> is_space (CHR ''*'') \<and> \<not> is_digit (CHR ''*'') \<and> CHR ''*'' \<noteq> CHR ''V''"
  by (simp add: is_space_def is_digit_def)

lemma roots_inert: "t \<in> set primitive_roots \<Longrightarrow> \<forall>x \<in> set (''c_'' @ t). inert_char x"
  by (auto simp: primitive_roots_def inert_char_def)

lemma pointers_inert:
  "\<forall>x \<in> set y. inert_char x \<Longrightarrow> \<forall>x \<in> set (pointers k y). inert_char x"
  by (induction k) (auto simp: inert_char_def)

lemma pointers_head:
  "\<exists>z. pointers k (''c_'' @ t) = CHR ''c'' # CHR ''_'' # z
     \<or> pointers k (''c_'' @ t) = CHR ''P'' # CHR ''O'' # CHR ''I'' # CHR ''N'' # CHR ''T'' # CHR ''E''
          # CHR ''R'' # CHR ''('' # z \<and> z \<noteq> ''None)''"
proof (cases k)
  case 0
  then show ?thesis by simp
next
  case (Suc j)
  from Suc show ?thesis
    by (cases j) auto
qed

lemma pointers_snoc:
  assumes "t \<in> set primitive_roots"
  shows "\<exists>u y. pointers k (''c_'' @ t) = u @ [y] \<and> u \<noteq> [] \<and> inert_char y
     \<and> (\<forall>x \<in> set u. inert_char x)"
proof -
  let ?X = "pointers k (''c_'' @ t)"
  from pointers_head [of k t] have l: "2 \<le> length ?X"
    by auto
  then have ne: "?X \<noteq> []"
    by auto
  have i: "\<forall>x \<in> set ?X. inert_char x"
    by (rule pointers_inert [OF roots_inert [OF assms]])
  have "?X = butlast ?X @ [last ?X]"
    using ne by simp
  moreover have "butlast ?X \<noteq> []"
    using l by (cases ?X) (auto split: if_splits)
  moreover have "inert_char (last ?X)"
    using i ne by simp
  moreover have "\<forall>x \<in> set (butlast ?X). inert_char x"
    using i by (auto dest: in_set_butlastD)
  ultimately show ?thesis
    by blast
qed

lemma no_word_start_b_root:
  "t \<in> set primitive_roots \<Longrightarrow> no_word_start (\<lambda>x. x = CHR ''b'') c (''c_'' @ t)"
  by (auto simp: primitive_roots_def word_at_def is_word_def)

lemma no_word_start_b_pointers:
  "t \<in> set primitive_roots \<Longrightarrow> no_word_start (\<lambda>x. x = CHR ''b'') c (pointers k (''c_'' @ t))"
proof (induction k arbitrary: c)
  case 0
  then show ?case
    using no_word_start_b_root [of t c] by simp
next
  case (Suc k)
  from Suc.IH [OF Suc.prems, of "Some (CHR ''('')"] show ?case
    by (simp add: no_word_start_append)
qed

lemma strip_id: "\<forall>x \<in> set s. \<not> is_space x \<Longrightarrow> strip s = s"
proof -
  assume a: "\<forall>x \<in> set s. \<not> is_space x"
  have d: "\<And>xs. \<forall>x \<in> set xs. \<not> is_space x \<Longrightarrow> dropWhile is_space xs = xs"
    by (metis dropWhile_eq_self_iff list.set_sel(1))
  from a have "dropWhile is_space s = s"
    by (rule d)
  moreover from a have "dropWhile is_space (rev s) = rev s"
    by (intro d) simp
  ultimately show ?thesis
    by (simp add: strip_def)
qed

lemma canonical_spelling_id:
  assumes q: "\<forall>x \<in> set s. \<not> is_space x \<and> \<not> is_digit x \<and> x \<noteq> CHR ''V''"
    and "s \<noteq> ''unsigned''" "re_match rx_char_p s = None" "re_match rx_primitive s = None"
  shows "canonical_spelling s = s"
proof -
  from q have sp: "\<forall>x \<in> set s. \<not> is_space x" and dg: "\<forall>x \<in> set s. \<not> is_digit x"
    and v: "\<forall>x \<in> set s. \<not> x = CHR ''V''"
    by auto
  have k: "strip_keywords s = s"
    unfolding strip_keywords_def Let_def
    by (simp add: strip_id [OF sp] re_sub_id_char [OF needs_space(1) sp]
        re_sub_id_char [OF needs_space(2) sp] re_sub_id_char [OF needs_space(3) sp]
        re_sub_id_char [OF needs_space(4) sp] re_sub_id_char [OF needs_space(5) sp])
  have w: "\<And>w repl. w \<in> {''8'', ''16'', ''32'', ''64''} \<Longrightarrow> re_sub (rx_width w) repl s = s"
    by (rule re_sub_id_char [OF needs_digit dg])
  have a: "abbreviate s = s"
    unfolding abbreviate_def Let_def
    by (simp add: w re_sub_id_char [OF needs_space(6) sp] re_sub_id_char [OF needs_space(7) sp]
        re_sub_id_char [OF needs_V v] char_p_rule_def primitive_rule_def assms(3,4))
  from k a assms(2) show ?thesis
    by (simp add: canonical_spelling_def implicit_int_def)
qed

lemma finish_spelling_id:
  assumes "s \<noteq> ''void''" "s \<noteq> ''POINTER(None)''" "no_word_start (\<lambda>x. x = CHR ''b'') None s"
    and "\<not> startswith s ''vr::''"
  shows "finish_spelling s = s"
  unfolding finish_spelling_def Let_def
  using assms by (simp add: re_sub_id_word_start [OF bool_word_start assms(3)])

lemma translate_fuel_fixed:
  assumes "canonical_spelling s = s" "re_match rx_pointer s = None" "re_match rx_ptr s = None"
    and "finish_spelling s = s" "re_match rx_array s = None" "2 \<le> n"
  shows "translate_fuel n s b = Some s"
proof -
  from assms(6) obtain m where n: "n = Suc (Suc m)"
    by (metis One_nat_def Suc_1 Suc_le_D Suc_le_mono)
  show ?thesis
    unfolding n using assms(1-5) by simp
qed


lemma char_p_no_match_head:
  "re_match rx_char_p (CHR ''c'' # CHR ''_'' # z) = None"
  "re_match rx_char_p (CHR ''P'' # z) = None"
  by (simp_all add: re_match_def rx_char_p_def seq_def lit_def is_space_def)

lemma primitive_no_match_head:
  "re_match rx_primitive (CHR ''c'' # CHR ''_'' # z) = None"
  "re_match rx_primitive (CHR ''P'' # z) = None"
  by (simp_all add: re_match_def rx_primitive_def seq_def lit_def)

lemma pointers_stars_canonical:
  assumes "t \<in> set primitive_roots"
  shows "canonical_spelling (pointers k (''c_'' @ t) @ replicate n (CHR ''*''))
     = pointers k (''c_'' @ t) @ replicate n (CHR ''*'')"
proof (rule canonical_spelling_id)
  let ?X = "pointers k (''c_'' @ t)"
  let ?Z = "?X @ replicate n (CHR ''*'')"
  have i: "\<forall>x \<in> set ?X. inert_char x"
    by (rule pointers_inert [OF roots_inert [OF assms]])
  show "\<forall>x \<in> set ?Z. \<not> is_space x \<and> \<not> is_digit x \<and> x \<noteq> CHR ''V''"
  proof
    fix x
    assume "x \<in> set ?Z"
    then have "inert_char x \<or> x = CHR ''*''"
      using i by auto
    then show "\<not> is_space x \<and> \<not> is_digit x \<and> x \<noteq> CHR ''V''"
      using inert_char_facts [of x] star_facts by blast
  qed
  from pointers_head [of k t] obtain z where
    z: "?X = CHR ''c'' # CHR ''_'' # z \<or> ?X = CHR ''P'' # z"
    by blast
  then show "?Z \<noteq> ''unsigned''"
    by (elim disjE) simp_all
  from z show "re_match rx_char_p ?Z = None"
    by (elim disjE) (simp_all add: char_p_no_match_head)
  from z show "re_match rx_primitive ?Z = None"
    by (elim disjE) (simp_all add: primitive_no_match_head)
qed

lemma pointers_no_match:
  assumes "t \<in> set primitive_roots"
  shows "re_match rx_pointer (pointers k (''c_'' @ t)) = None"
    and "re_match rx_ptr (pointers k (''c_'' @ t)) = None"
    and "re_match rx_array (pointers k (''c_'' @ t)) = None"
proof -
  let ?X = "pointers k (''c_'' @ t)"
  have i: "\<forall>x \<in> set ?X. inert_char x"
    by (rule pointers_inert [OF roots_inert [OF assms]])
  from i inert_char_facts have 1: "\<forall>x \<in> set ?X. \<not> star_or_amp x"
    and 2: "\<forall>x \<in> set ?X. \<not> x = CHR ''p''" and 3: "\<forall>x \<in> set ?X. \<not> x = CHR ''[''"
    by blast+
  show "re_match rx_pointer ?X = None"
    by (rule re_match_None_char [OF needs_marker 1])
  show "re_match rx_ptr ?X = None"
    by (rule re_match_None_char [OF needs_p 2])
  show "re_match rx_array ?X = None"
    by (rule re_match_None_char [OF needs_lbracket 3])
qed

lemma pointers_finish:
  assumes "t \<in> set primitive_roots"
  shows "finish_spelling (pointers k (''c_'' @ t)) = pointers k (''c_'' @ t)"
proof (rule finish_spelling_id)
  let ?X = "pointers k (''c_'' @ t)"
  from pointers_head [of k t] obtain z where
    z: "?X = CHR ''c'' # CHR ''_'' # z
      \<or> ?X = CHR ''P'' # CHR ''O'' # CHR ''I'' # CHR ''N'' # CHR ''T'' # CHR ''E''
          # CHR ''R'' # CHR ''('' # z \<and> z \<noteq> ''None)''"
    by blast
  then show "?X \<noteq> ''void''"
    by (elim disjE) simp_all
  from z show "?X \<noteq> ''POINTER(None)''"
    by (elim disjE) simp_all
  from z show "\<not> startswith ?X ''vr::''"
    by (elim disjE) (simp_all add: startswith_def)
  show "no_word_start (\<lambda>x. x = CHR ''b'') None ?X"
    by (rule no_word_start_b_pointers [OF assms])
qed

lemma pointers_fixed:
  assumes "t \<in> set primitive_roots" "2 \<le> n"
  shows "translate_fuel n (pointers k (''c_'' @ t)) b = Some (pointers k (''c_'' @ t))"
  using pointers_stars_canonical [OF assms(1), of k 0]
  by (intro translate_fuel_fixed pointers_no_match pointers_finish assms) simp

lemma pointers_match_one:
  assumes "t \<in> set primitive_roots"
  shows "re_match rx_pointer (pointers k (''c_'' @ t) @ ''*'')
     = Some [(2, []), (1, pointers k (''c_'' @ t))]"
proof -
  from pointers_snoc [OF assms, of k] obtain u y where
    u: "pointers k (''c_'' @ t) = u @ [y]" "u \<noteq> []" "inert_char y" "\<forall>x \<in> set u. inert_char x"
    by blast
  from u inert_char_facts have "\<forall>x \<in> set u. not_star x" "not_star y" "not_space y"
    by blast+
  from pointer_match_one [OF this(1) u(2) this(2,3)] show ?thesis
    unfolding u(1) by simp
qed

lemma pointers_match_two:
  assumes "t \<in> set primitive_roots"
  shows "re_match rx_pointer (pointers k (''c_'' @ t) @ ''**'' @ replicate n (CHR ''*''))
     = Some [(2, replicate n (CHR ''*'')), (1, pointers k (''c_'' @ t) @ ''*'')]"
proof -
  from pointers_snoc [OF assms, of k] obtain u y where
    u: "pointers k (''c_'' @ t) = u @ [y]" "u \<noteq> []" "inert_char y" "\<forall>x \<in> set u. inert_char x"
    by blast
  from u inert_char_facts have "\<forall>x \<in> set u. not_star x" "not_star y" "not_space y"
    by blast+
  from pointer_match_two [OF this(1) u(2) this(2,3), of n] show ?thesis
    unfolding u(1) by simp
qed

lemma rewrite_loop_no_match:
  "re_match rx x = None \<Longrightarrow> 1 \<le> n \<Longrightarrow> rewrite_loop n rx x = Some x"
  by (cases n) simp_all

lemma pointer_loop_one:
  assumes "t \<in> set primitive_roots" "3 \<le> n"
  shows "rewrite_loop n rx_pointer (pointers k (''c_'' @ t) @ ''*'')
     = Some (pointers (Suc k) (''c_'' @ t))"
proof -
  from assms(2) obtain m where n: "n = Suc m" "2 \<le> m"
    by (cases n) auto
  have "rewrite_loop m rx_pointer (pointers (Suc k) (''c_'' @ t)) = Some (pointers (Suc k) (''c_'' @ t))"
    using n by (intro rewrite_loop_no_match pointers_no_match assms) simp
  then show ?thesis
    unfolding n using pointers_match_one [OF assms(1), of k] pointers_fixed [OF assms(1) n(2), of k False]
    by (simp add: group_def)
qed

lemma pointers_one:
  assumes "t \<in> set primitive_roots" "4 \<le> n"
  shows "translate_fuel n (pointers k (''c_'' @ t) @ ''*'') False
     = Some (pointers (Suc k) (''c_'' @ t))"
proof -
  from assms(2) obtain m where n: "n = Suc m" "3 \<le> m"
    by (cases n) auto
  have c: "canonical_spelling (pointers k (''c_'' @ t) @ ''*'') = pointers k (''c_'' @ t) @ ''*''"
    using pointers_stars_canonical [OF assms(1), of k 1] by simp
  have p: "rewrite_loop m rx_ptr (pointers (Suc k) (''c_'' @ t)) = Some (pointers (Suc k) (''c_'' @ t))"
    using n by (intro rewrite_loop_no_match pointers_no_match assms) simp
  show ?thesis
    unfolding n
    using c pointer_loop_one [OF assms(1) n(2), of k] p pointers_finish [OF assms(1), of "Suc k"]
      pointers_no_match(3) [OF assms(1), of "Suc k"]
    by (simp del: pointers.simps)
qed

lemma pointers_add: "pointers n (pointers k x) = pointers (n + k) x"
  by (induction n) auto

lemma pointer_loop_stars:
  assumes "t \<in> set primitive_roots"
  shows "N + 5 \<le> n \<Longrightarrow> rewrite_loop n rx_pointer (pointers k (''c_'' @ t) @ replicate N (CHR ''*''))
     = Some (pointers (N + k) (''c_'' @ t))"
proof (induction N arbitrary: n k rule: less_induct)
  case (less N)
  show ?case
  proof (cases N)
    case 0
    with less.prems rewrite_loop_no_match [OF pointers_no_match(1) [OF assms, of k], of n]
    show ?thesis
      by simp
  next
    case (Suc N1)
    show ?thesis
    proof (cases N1)
      case 0
      with Suc less.prems pointer_loop_one [OF assms, of n k] show ?thesis
        by simp
    next
      case (Suc N2)
      with \<open>N = Suc N1\<close> have N: "N = Suc (Suc N2)"
        by simp
      from less.prems N obtain m where n: "n = Suc m" "N2 + 5 \<le> m" "4 \<le> m"
        by (cases n) auto
      have s: "pointers k (''c_'' @ t) @ replicate N (CHR ''*'')
          = pointers k (''c_'' @ t) @ ''**'' @ replicate N2 (CHR ''*'')"
        by (simp add: N)
      have "rewrite_loop m rx_pointer (pointers (Suc (Suc k)) (''c_'' @ t) @ replicate N2 (CHR ''*''))
          = Some (pointers (N2 + Suc (Suc k)) (''c_'' @ t))"
        using less.IH [of N2 m "Suc (Suc k)"] n N by simp
      then show ?thesis
        unfolding s n using pointers_match_two [OF assms, of k N2] pointers_one [OF assms n(3), of k]
        by (simp add: group_def N)
    qed
  qed
qed


lemma root_primitive_match:
  "t \<in> set primitive_roots \<Longrightarrow> re_match rx_primitive (t @ z) \<noteq> None"
  by (auto simp: primitive_roots_def re_match_def rx_primitive_def seq_def lit_def)

lemma root_char_p_no_match:
  assumes "t \<in> set primitive_roots" "\<not> (t = ''char'' \<and> n = 1)"
  shows "re_match rx_char_p (t @ replicate n (CHR ''*'')) = None"
proof (cases "t = ''char''")
  case False
  with assms(1) show ?thesis
    by (auto simp: primitive_roots_def re_match_def rx_char_p_def seq_def lit_def is_space_def)
next
  case True
  with assms(2) have "n = 0 \<or> (\<exists>m. n = Suc (Suc m))"
    by (cases n) (auto simp: gr0_conv_Suc)
  then show ?thesis
  proof
    assume "n = 0"
    with True show ?thesis
      by (simp add: re_match_def rx_char_p_def seq_def lit_def is_space_def)
  next
    assume "\<exists>m. n = Suc (Suc m)"
    then obtain m where "n = Suc (Suc m)"
      by blast
    with True show ?thesis
      by (simp add: re_match_def rx_char_p_def seq_def lit_def is_space_def newline_def)
  qed
qed

lemma root_stars_canonical:
  assumes "t \<in> set primitive_roots" "\<not> (t = ''char'' \<and> n = 1)"
  shows "canonical_spelling (t @ replicate n (CHR ''*'')) = ''c_'' @ t @ replicate n (CHR ''*'')"
proof -
  let ?Z = "t @ replicate n (CHR ''*'')"
  have i: "\<forall>x \<in> set (''c_'' @ ?Z). inert_char x \<or> x = CHR ''*''"
    using roots_inert [OF assms(1)] by auto
  have q: "\<forall>x \<in> set (''c_'' @ ?Z). \<not> is_space x \<and> \<not> is_digit x \<and> x \<noteq> CHR ''V''"
  proof
    fix x
    assume "x \<in> set (''c_'' @ ?Z)"
    with i have "inert_char x \<or> x = CHR ''*''"
      by blast
    then show "\<not> is_space x \<and> \<not> is_digit x \<and> x \<noteq> CHR ''V''"
      using inert_char_facts [of x] star_facts by blast
  qed
  then have sp: "\<forall>x \<in> set ?Z. \<not> is_space x" and dg: "\<forall>x \<in> set ?Z. \<not> is_digit x"
    and v: "\<forall>x \<in> set (''c_'' @ ?Z). \<not> x = CHR ''V''"
    by auto
  have k: "strip_keywords ?Z = ?Z"
    unfolding strip_keywords_def Let_def
    by (simp add: strip_id [OF sp] re_sub_id_char [OF needs_space(1) sp]
        re_sub_id_char [OF needs_space(2) sp] re_sub_id_char [OF needs_space(3) sp]
        re_sub_id_char [OF needs_space(4) sp] re_sub_id_char [OF needs_space(5) sp])
  have u: "?Z \<noteq> ''unsigned''"
    using assms(1) by (auto simp: primitive_roots_def)
  have w: "\<And>w repl. w \<in> {''8'', ''16'', ''32'', ''64''} \<Longrightarrow> re_sub (rx_width w) repl ?Z = ?Z"
    by (rule re_sub_id_char [OF needs_digit dg])
  have "abbreviate ?Z = re_sub rx_VR [] (''c_'' @ ?Z)"
    unfolding abbreviate_def Let_def
    by (simp add: w re_sub_id_char [OF needs_space(6) sp] re_sub_id_char [OF needs_space(7) sp]
        char_p_rule_def primitive_rule_def root_char_p_no_match [OF assms]
        root_primitive_match [OF assms(1)])
  also have "\<dots> = ''c_'' @ ?Z"
    by (rule re_sub_id_char [OF needs_V v])
  finally show ?thesis
    using k u by (simp add: canonical_spelling_def implicit_int_def)
qed

lemma root_stars_translate:
  assumes "t \<in> set primitive_roots" "\<not> (t = ''char'' \<and> N = 1)" "N + 6 \<le> n"
  shows "translate_fuel n (t @ replicate N (CHR ''*'')) False = Some (pointers N (''c_'' @ t))"
proof -
  from assms(3) obtain m where n: "n = Suc m" "N + 5 \<le> m"
    by (cases n) auto
  have l: "rewrite_loop m rx_pointer (pointers 0 (''c_'' @ t) @ replicate N (CHR ''*''))
      = Some (pointers (N + 0) (''c_'' @ t))"
    by (rule pointer_loop_stars [OF assms(1) n(2)])
  have p: "rewrite_loop m rx_ptr (pointers N (''c_'' @ t)) = Some (pointers N (''c_'' @ t))"
    using n by (intro rewrite_loop_no_match pointers_no_match assms) simp
  show ?thesis
    unfolding n
    using root_stars_canonical [OF assms(1,2)] l p pointers_finish [OF assms(1), of N]
      pointers_no_match(3) [OF assms(1), of N]
    by simp
qed

lemma root_stars_translate_type:
  assumes "t \<in> set primitive_roots" "\<not> (t = ''char'' \<and> N = 1)"
  shows "translate_type (t @ replicate N (CHR ''*'')) False = pointers N (''c_'' @ t)"
  by (rule translate_type_eq [OF root_stars_translate [OF assms order_refl]])

subsection \<open>The translator on a bounded stack\<close>

lemma stack_sim_aux:
  "(\<forall>d s b. (translate_stack n d s b = None \<longrightarrow> translate_fuel n s b = None)
       \<and> (\<forall>r. translate_stack n d s b = Some (Inr r) \<longrightarrow> translate_fuel n s b = Some r)
       \<and> (\<forall>e. translate_stack n d s b = Some (Inl e) \<longrightarrow> e = RecursionError))
   \<and> (\<forall>d rx x. (rewrite_loop_stack n d rx x = None \<longrightarrow> rewrite_loop n rx x = None)
       \<and> (\<forall>r. rewrite_loop_stack n d rx x = Some (Inr r) \<longrightarrow> rewrite_loop n rx x = Some r)
       \<and> (\<forall>e. rewrite_loop_stack n d rx x = Some (Inl e) \<longrightarrow> e = RecursionError))"
proof (induction n)
  case 0
  show ?case by simp
next
  case (Suc n)
  from Suc have t1: "\<And>d s b. translate_stack n d s b = None \<Longrightarrow> translate_fuel n s b = None"
    and t2: "\<And>d s b r. translate_stack n d s b = Some (Inr r) \<Longrightarrow> translate_fuel n s b = Some r"
    and t3: "\<And>d s b e. translate_stack n d s b = Some (Inl e) \<Longrightarrow> e = RecursionError"
    and l1: "\<And>d rx x. rewrite_loop_stack n d rx x = None \<Longrightarrow> rewrite_loop n rx x = None"
    and l2: "\<And>d rx x r. rewrite_loop_stack n d rx x = Some (Inr r) \<Longrightarrow> rewrite_loop n rx x = Some r"
    and l3: "\<And>d rx x e. rewrite_loop_stack n d rx x = Some (Inl e) \<Longrightarrow> e = RecursionError"
    by blast+
  have loop: "(rewrite_loop_stack (Suc n) d rx x = None \<longrightarrow> rewrite_loop (Suc n) rx x = None)
       \<and> (\<forall>r. rewrite_loop_stack (Suc n) d rx x = Some (Inr r) \<longrightarrow> rewrite_loop (Suc n) rx x = Some r)
       \<and> (\<forall>e. rewrite_loop_stack (Suc n) d rx x = Some (Inl e) \<longrightarrow> e = RecursionError)" for d rx x
  proof (cases "re_match rx x")
    case None
    then show ?thesis by simp
  next
    case m: (Some m)
    show ?thesis
    proof (cases "translate_stack n d (group m 1) False")
      case None
      with m t1 [OF None] show ?thesis by simp
    next
      case (Some v)
      show ?thesis
      proof (cases v)
        case (Inl e)
        with m Some t3 [of d "group m 1" False e] show ?thesis by simp
      next
        case (Inr p)
        with Some have "translate_fuel n (group m 1) False = Some p"
          by (intro t2) simp
        with m Some Inr l1 l2 l3 show ?thesis
          by simp
      qed
    qed
  qed
  have tr: "(translate_stack (Suc n) d s b = None \<longrightarrow> translate_fuel (Suc n) s b = None)
       \<and> (\<forall>r. translate_stack (Suc n) d s b = Some (Inr r) \<longrightarrow> translate_fuel (Suc n) s b = Some r)
       \<and> (\<forall>e. translate_stack (Suc n) d s b = Some (Inl e) \<longrightarrow> e = RecursionError)" for d s b
  proof (cases d)
    case 0
    then show ?thesis by simp
  next
    case d: (Suc d')
    show ?thesis
    proof (cases "rewrite_loop_stack n d' rx_pointer (canonical_spelling s)")
      case None
      with d l1 [OF None] show ?thesis by simp
    next
      case v1: (Some v1)
      show ?thesis
      proof (cases v1)
        case (Inl e)
        with d v1 l3 [of d' rx_pointer "canonical_spelling s" e] show ?thesis by simp
      next
        case r1: (Inr r1)
        with v1 have f1: "rewrite_loop n rx_pointer (canonical_spelling s) = Some r1"
          by (intro l2) simp
        show ?thesis
        proof (cases "rewrite_loop_stack n d' rx_ptr r1")
          case None
          with d v1 r1 f1 l1 [OF None] show ?thesis by simp
        next
          case v2: (Some v2)
          show ?thesis
          proof (cases v2)
            case (Inl e)
            with d v1 r1 v2 l3 [of d' rx_ptr r1 e] show ?thesis by simp
          next
            case r2: (Inr r2)
            with v2 have f2: "rewrite_loop n rx_ptr r1 = Some r2"
              by (intro l2) simp
            show ?thesis
            proof (cases "re_match rx_array (finish_spelling r2)")
              case None
              with d v1 r1 v2 r2 f1 f2 show ?thesis
                by (simp add: Let_def)
            next
              case m: (Some m)
              show ?thesis
              proof (cases "translate_stack n d' (group m 1 @ group m 3) True")
                case None
                with d v1 r1 v2 r2 f1 f2 m t1 [OF None] show ?thesis
                  by (simp add: Let_def)
              next
                case v3: (Some v3)
                show ?thesis
                proof (cases v3)
                  case (Inl e)
                  with d v1 r1 v2 r2 m v3 t3 [of d' "group m 1 @ group m 3" True e] show ?thesis
                    by (simp add: Let_def)
                next
                  case (Inr t0)
                  with v3 have "translate_fuel n (group m 1 @ group m 3) True = Some t0"
                    by (intro t2) simp
                  with d v1 r1 v2 r2 f1 f2 m v3 Inr show ?thesis
                    by (simp add: Let_def)
                qed
              qed
            qed
          qed
        qed
      qed
    qed
  qed
  from loop tr show ?case
    by blast
qed

lemma translate_stack_Inr:
  "translate_stack n d s b = Some (Inr r) \<Longrightarrow> translate_fuel n s b = Some r"
  using stack_sim_aux [of n] by blast

lemma rewrite_loop_stack_Inr:
  "rewrite_loop_stack n d rx x = Some (Inr r) \<Longrightarrow> rewrite_loop n rx x = Some r"
  using stack_sim_aux [of n] by blast

lemma translate_stack_cases:
  assumes "translate_fuel n s b = Some r"
  shows "translate_stack n d s b = Some (Inr r) \<or> translate_stack n d s b = Some (Inl RecursionError)"
proof (cases "translate_stack n d s b")
  case None
  with stack_sim_aux [of n] assms show ?thesis
    by (metis option.distinct(1))
next
  case (Some v)
  show ?thesis
  proof (cases v)
    case (Inl e)
    with Some stack_sim_aux [of n] show ?thesis
      by blast
  next
    case (Inr r')
    with Some translate_stack_Inr [of n d s b r'] assms show ?thesis
      by simp
  qed
qed

lemma stack_enough_aux:
  "(\<forall>d s b e. weight s < d \<longrightarrow> translate_stack n d s b \<noteq> Some (Inl e))
   \<and> (\<forall>d rx x e. (rx = rx_pointer \<or> rx = rx_ptr) \<longrightarrow> weight x \<le> d
        \<longrightarrow> rewrite_loop_stack n d rx x \<noteq> Some (Inl e))"
proof (induction n)
  case 0
  show ?case by simp
next
  case (Suc n)
  from Suc have t: "\<And>d s b e. weight s < d \<Longrightarrow> translate_stack n d s b \<noteq> Some (Inl e)"
    and l: "\<And>d rx x e. rx = rx_pointer \<or> rx = rx_ptr \<Longrightarrow> weight x \<le> d
        \<Longrightarrow> rewrite_loop_stack n d rx x \<noteq> Some (Inl e)"
    by blast+
  have loop: "rewrite_loop_stack (Suc n) d rx x \<noteq> Some (Inl e)"
    if rx: "rx = rx_pointer \<or> rx = rx_ptr" and x: "weight x \<le> d" for d rx x e
  proof (cases "re_match rx x")
    case None
    then show ?thesis by simp
  next
    case m: (Some m)
    from loop_match_weight [OF m rx] x
    have g: "weight (group m 1) + weight (group m 2) < d"
      by linarith
    show ?thesis
    proof (cases "translate_stack n d (group m 1) False")
      case None
      with m show ?thesis by simp
    next
      case (Some v)
      show ?thesis
      proof (cases v)
        case (Inl e')
        with Some t [of "group m 1" d False e'] g show ?thesis
          by simp
      next
        case (Inr p)
        with Some have "translate_fuel n (group m 1) False = Some p"
          by (intro translate_stack_Inr) simp
        from weight_translate_fuel [OF this] g
        have "weight (''POINTER('' @ p @ '')'' @ group m 2) \<le> d"
          unfolding weight_pointer_wrap by linarith
        from l [OF rx this, of e] m Some Inr show ?thesis
          by simp
      qed
    qed
  qed
  have tr: "translate_stack (Suc n) d s b \<noteq> Some (Inl e)" if s: "weight s < d" for d s b e
  proof -
    from s obtain d' where d: "d = Suc d'"
      by (cases d) auto
    have "weight (canonical_spelling s) \<le> weight s"
      unfolding weight_wsum by (rule wsum_canonical_spelling [OF neutral_unit_weight])
    with s d have wc: "weight (canonical_spelling s) \<le> d'"
      by linarith
    show ?thesis
    proof (cases "rewrite_loop_stack n d' rx_pointer (canonical_spelling s)")
      case None
      with d show ?thesis by simp
    next
      case v1: (Some v1)
      show ?thesis
      proof (cases v1)
        case (Inl e')
        with v1 l [of rx_pointer "canonical_spelling s" d' e'] wc show ?thesis
          by simp
      next
        case r1: (Inr r1)
        with v1 have "rewrite_loop n rx_pointer (canonical_spelling s) = Some r1"
          by (intro rewrite_loop_stack_Inr) simp
        from weight_rewrite_loop [OF _ this] wc have w1: "weight r1 \<le> d'"
          by simp
        show ?thesis
        proof (cases "rewrite_loop_stack n d' rx_ptr r1")
          case None
          with d v1 r1 show ?thesis by simp
        next
          case v2: (Some v2)
          show ?thesis
          proof (cases v2)
            case (Inl e')
            with v2 l [of rx_ptr r1 d' e'] w1 show ?thesis
              by simp
          next
            case r2: (Inr r2)
            with v2 have "rewrite_loop n rx_ptr r1 = Some r2"
              by (intro rewrite_loop_stack_Inr) simp
            from weight_rewrite_loop [OF _ this] w1 have w2: "weight r2 \<le> d'"
              by simp
            have "weight (finish_spelling r2) \<le> weight r2"
              unfolding weight_wsum by (rule wsum_finish_spelling [OF neutral_unit_weight])
            with w2 have wf: "weight (finish_spelling r2) \<le> d'"
              by linarith
            show ?thesis
            proof (cases "re_match rx_array (finish_spelling r2)")
              case None
              with d v1 r1 v2 r2 show ?thesis
                by (simp add: Let_def)
            next
              case m: (Some m)
              from array_match_weight [OF m] wf have "weight (group m 1 @ group m 3) < d'"
                by linarith
              from t [OF this, of True] d v1 r1 v2 r2 m show ?thesis
                by (auto simp: Let_def split: option.splits sum.splits)
            qed
          qed
        qed
      qed
    qed
  qed
  from loop tr show ?case
    by blast
qed

lemma translate_type_stack_cases:
  "\<exists>v. translate_stack (2 * weight s + 2) d s b = Some v \<and> translate_type_stack d s b = v
     \<and> (v = Inr (translate_type s b) \<or> v = Inl RecursionError)"
proof -
  obtain r where r: "translate_fuel (2 * weight s + 2) s b = Some r"
    using translate_fuel_total by blast
  then have "translate_type s b = r"
    by (simp add: translate_type_def)
  with translate_stack_cases [OF r, of d] show ?thesis
    by (auto simp: translate_type_stack_def)
qed

lemma translate_type_stack_enough:
  assumes "weight s < d"
  shows "translate_type_stack d s b = Inr (translate_type s b)"
proof -
  from translate_type_stack_cases [of s d b] obtain v where
    v: "translate_stack (2 * weight s + 2) d s b = Some v" "translate_type_stack d s b = v"
    "v = Inr (translate_type s b) \<or> v = Inl RecursionError"
    by blast
  with stack_enough_aux [of "2 * weight s + 2"] assms show ?thesis
    by auto
qed

subsection \<open>A chain of ampersands needs one activation for each\<close>

lemma many_last_two:
  "\<forall>x \<in> set u. p x \<Longrightarrow> p y \<Longrightarrow> p z \<Longrightarrow>
     \<exists>ys. many p c (u @ [y, z]) = (Some z, []) # (Some y, [z]) # (last_char c u, [y, z]) # ys
       \<and> (u \<noteq> [] \<longrightarrow> ys \<noteq> [])"
proof (induction u arbitrary: c)
  case Nil
  then show ?case by (simp add: last_char_def)
next
  case (Cons x u)
  from Cons.IH [of "Some x"] Cons.prems obtain ys where
    "many p (Some x) (u @ [y, z]) = (Some z, []) # (Some y, [z]) # (last_char (Some x) u, [y, z]) # ys"
    by auto
  with Cons.prems show ?case
    by (simp add: last_char_def)
qed

lemma replicate_snoc: "x # replicate k x = replicate k x @ [x]"
  by (induction k) simp_all

lemma replicate_snoc_two: "x # x # replicate k x = replicate k x @ [x, x]"
  by (induction k) simp_all

lemma plus_last_two:
  assumes "\<forall>x \<in> set u. p x" "p y" "p z" "u \<noteq> []"
  shows "\<exists>ys. matches (Plus p) (c, u @ [y, z], g)
     = (Some z, [], g) # (Some y, [z], g) # (last_char c u, [y, z], g) # ys"
proof -
  from many_last_two [OF assms(1-3), of c] assms(4) obtain ys where
    ys: "many p c (u @ [y, z]) = (Some z, []) # (Some y, [z]) # (last_char c u, [y, z]) # ys"
    "ys \<noteq> []"
    by blast
  then show ?thesis
    by simp
qed

lemma pointer_tail_amp:
  "\<exists>c' ys. matches (seq [Star is_space, Cls star_or_amp, Grp 2 (Star any_char), Eol])
       (c, ''&'', g) = (c', [], (2, []) # g) # ys"
  by (simp add: seq_def is_space_def star_or_amp_def)

lemma ampersands_match:
  "re_match rx_pointer (ampersands (Suc (Suc k))) = Some [(2, []), (1, ampersands (Suc k))]"
proof -
  let ?u = "ampersands k"
  have a: "ampersands (Suc (Suc k)) = ?u @ ''&&''" "ampersands (Suc k) = ?u @ ''&''"
    by (simp_all add: ampersands_def replicate_snoc replicate_snoc_two)
  have u: "\<forall>x \<in> set ?u. not_star x" "?u \<noteq> []"
    by (auto simp: ampersands_def not_star_def)
  have "not_star (CHR ''&'')"
    by (simp add: not_star_def)
  from plus_last_two [OF u(1) this this u(2), of None "[]"] obtain ys where
    ys: "matches (Plus not_star) (None, ?u @ ''&&'', [])
       = (Some (CHR ''&''), [], []) # (Some (CHR ''&''), ''&'', []) # (last_char None ?u, ''&&'', []) # ys"
    by blast
  have sp: "not_space (CHR ''&'')"
    by (simp add: not_space_def is_space_def)
  have "\<exists>gs. matches (Grp 1 (Seq (Plus not_star) (Cls not_space))) (None, ?u @ ''&&'', [])
     = (Some (CHR ''&''), [], [(1, ?u @ ''&&'')]) # (Some (CHR ''&''), ''&'', [(1, ?u @ ''&'')]) # gs"
    by (simp del: matches.simps(4) add: ys sp)
  then obtain gs where
    g: "matches (Grp 1 (Seq (Plus not_star) (Cls not_space))) (None, ?u @ ''&&'', [])
     = (Some (CHR ''&''), [], [(1, ?u @ ''&&'')]) # (Some (CHR ''&''), ''&'', [(1, ?u @ ''&'')]) # gs"
    by blast
  from pointer_tail_amp [of "Some (CHR ''&'')" "[(1, ?u @ ''&'')]"] obtain c' zs where
    t: "matches (seq [Star is_space, Cls star_or_amp, Grp 2 (Star any_char), Eol])
       (Some (CHR ''&''), ''&'', [(1, ?u @ ''&'')]) = (c', [], [(2, []), (1, ?u @ ''&'')]) # zs"
    by blast
  from pointer_second [OF g pointer_tail_end t] show ?thesis
    unfolding a by simp
qed

lemma ampersands_canonical: "canonical_spelling (ampersands k) = ampersands k"
proof (rule canonical_spelling_id)
  show "\<forall>x \<in> set (ampersands k). \<not> is_space x \<and> \<not> is_digit x \<and> x \<noteq> CHR ''V''"
    by (auto simp: ampersands_def is_space_def is_digit_def)
  show "ampersands k \<noteq> ''unsigned''"
    by (simp add: ampersands_def)
  show "re_match rx_char_p (ampersands k) = None"
    by (simp add: ampersands_def re_match_def rx_char_p_def seq_def lit_def is_space_def)
  show "re_match rx_primitive (ampersands k) = None"
    by (simp add: ampersands_def re_match_def rx_primitive_def seq_def lit_def)
qed

lemma ampersands_overflow:
  "d < k \<Longrightarrow> translate_stack n d (ampersands k) b \<noteq> Some (Inr r)"
proof (induction d arbitrary: n k b r)
  case 0
  show ?case
    by (cases n) simp_all
next
  case (Suc d)
  from Suc.prems obtain j where k: "k = Suc (Suc j)"
    by (metis Suc_lessE less_nat_zero_code not0_implies_Suc)
  show ?case
  proof (cases n)
    case 0
    then show ?thesis by simp
  next
    case n: (Suc n1)
    show ?thesis
    proof (cases n1)
      case 0
      with n show ?thesis by simp
    next
      case n1: (Suc n2)
      from Suc.prems k have "d < Suc j"
        by simp
      from Suc.IH [OF this, of n2 False]
      have "\<And>p. translate_stack n2 d (ampersands (Suc j)) False \<noteq> Some (Inr p)"
        by blast
      then have "\<And>p. rewrite_loop_stack n1 d rx_pointer (ampersands k) \<noteq> Some (Inr p)"
        unfolding n1 k by (auto simp: ampersands_match group_def split: option.splits sum.splits)
      then show ?thesis
        unfolding n by (auto simp: ampersands_canonical split: option.splits sum.splits)
    qed
  qed
qed

lemma ampersands_recursion_error:
  assumes "d < k"
  shows "translate_type_stack d (ampersands k) b = Inl RecursionError"
proof -
  from translate_type_stack_cases [of "ampersands k" d b] obtain v where
    v: "translate_stack (2 * weight (ampersands k) + 2) d (ampersands k) b = Some v"
    "translate_type_stack d (ampersands k) b = v"
    "v = Inr (translate_type (ampersands k) b) \<or> v = Inl RecursionError"
    by blast
  with ampersands_overflow [OF assms] show ?thesis
    by auto
qed

lemma ampersands_fit:
  "translate_type_stack (Suc k) (ampersands k) b = Inr (translate_type (ampersands k) b)"
  by (rule translate_type_stack_enough) (simp add: ampersands_def weight_def)

subsection \<open>Words\<close>










subsection \<open>The rewrites leave the inert words alone\<close>





















subsection \<open>Target form is kept, and its translations are fixed\<close>


















subsection \<open>Rendering a method\<close>

lemma marks_iff:
  "marks ps ps' \<longleftrightarrow> length ps' = length ps
     \<and> (\<forall>j < length ps. ps' ! j = ps ! j
           \<or> (ps' ! j = (ps ! j)\<lparr>is_count := True\<rparr> \<and> 0 < j \<and> is_out_string (ps ! (j - 1))))"
  by (auto simp: marks_def list_all_iff)

lemma is_out_string_mark [simp]: "is_out_string (p\<lparr>is_count := b\<rparr>) = is_out_string p"
  by (simp add: is_out_string_def)

lemma marks_refl: "marks ps ps"
  by (simp add: marks_iff)

lemma marks_out_string:
  "marks ps ps' \<Longrightarrow> j < length ps \<Longrightarrow> is_out_string (ps' ! j) = is_out_string (ps ! j)"
  by (auto simp: marks_iff)

lemma marks_trans:
  assumes "marks a b" "marks b c"
  shows "marks a c"
  unfolding marks_iff
proof (intro conjI allI impI)
  from assms show "length c = length a"
    by (simp add: marks_iff)
  fix j
  assume j: "j < length a"
  from assms(1) j have ab: "b ! j = a ! j
      \<or> (b ! j = (a ! j)\<lparr>is_count := True\<rparr> \<and> 0 < j \<and> is_out_string (a ! (j - 1)))"
    by (simp add: marks_iff)
  from assms j have bc: "c ! j = b ! j
      \<or> (c ! j = (b ! j)\<lparr>is_count := True\<rparr> \<and> 0 < j \<and> is_out_string (b ! (j - 1)))"
    by (simp add: marks_iff)
  from j have "j - 1 < length a"
    by simp
  from marks_out_string [OF assms(1) this]
  have o: "is_out_string (b ! (j - 1)) = is_out_string (a ! (j - 1))" .
  from ab bc o show "c ! j = a ! j
      \<or> (c ! j = (a ! j)\<lparr>is_count := True\<rparr> \<and> 0 < j \<and> is_out_string (a ! (j - 1)))"
    by auto
qed

lemma marks_step:
  assumes "is_out_string (ps ! pix)" "Suc pix < length ps"
  shows "marks ps (ps[Suc pix := (ps ! Suc pix)\<lparr>is_count := True\<rparr>])"
  unfolding marks_iff using assms by (auto simp: nth_list_update)

lemma out_string_loop_marks:
  "marks ps (snd (out_string_loop idxs ps pre))"
proof (induction idxs arbitrary: ps pre)
  case Nil
  show ?case by (simp add: marks_refl)
next
  case (Cons pix rest)
  show ?case
  proof (cases "is_out_string (ps ! pix)")
    case False
    with Cons.IH [of ps pre] show ?thesis
      by simp
  next
    case True
    show ?thesis
    proof (cases "Suc pix < length ps")
      case False
      with True show ?thesis
        by (simp add: marks_refl)
    next
      case l: True
      let ?ps1 = "ps[Suc pix := (ps ! Suc pix)\<lparr>is_count := True\<rparr>]"
      from marks_step [OF True l] have 1: "marks ps ?ps1" .
      have "marks ?ps1 (snd (out_string_loop (pix # rest) ps pre))"
        using True l Cons.IH [of ?ps1] by (simp add: Let_def)
      with 1 show ?thesis
        by (rule marks_trans)
    qed
  qed
qed

lemma out_string_loop_stable:
  assumes "\<forall>pix \<in> set idxs. is_out_string (ps ! pix) \<longrightarrow> Suc pix < length ps \<and> is_count (ps ! Suc pix)"
  shows "\<exists>pre'. out_string_loop idxs ps pre = (Inr pre', ps)"
  using assms
proof (induction idxs arbitrary: pre)
  case Nil
  show ?case by simp
next
  case (Cons pix rest)
  show ?case
  proof (cases "is_out_string (ps ! pix)")
    case False
    with Cons show ?thesis
      by simp
  next
    case True
    with Cons.prems have l: "Suc pix < length ps" and c: "is_count (ps ! Suc pix)"
      by auto
    from c have "(ps ! Suc pix)\<lparr>is_count := True\<rparr> = ps ! Suc pix"
      by simp
    then have "ps[Suc pix := (ps ! Suc pix)\<lparr>is_count := True\<rparr>] = ps"
      by simp
    with True l Cons.IH Cons.prems show ?thesis
      by (simp add: Let_def)
  qed
qed

lemma marks_keeps_count:
  "marks ps ps' \<Longrightarrow> j < length ps \<Longrightarrow> is_count (ps ! j) \<Longrightarrow> is_count (ps' ! j)"
  by (auto simp: marks_iff)

lemma out_string_loop_counted:
  assumes "out_string_loop idxs ps pre = (Inr pre', ps')"
  shows "\<forall>pix \<in> set idxs. is_out_string (ps ! pix) \<longrightarrow> Suc pix < length ps \<and> is_count (ps' ! Suc pix)"
  using assms
proof (induction idxs arbitrary: ps pre)
  case Nil
  show ?case by simp
next
  case (Cons pix rest)
  show ?case
  proof (cases "is_out_string (ps ! pix)")
    case False
    with Cons.prems have "out_string_loop rest ps pre = (Inr pre', ps')"
      by simp
    from Cons.IH [OF this] False show ?thesis
      by simp
  next
    case True
    with Cons.prems have l: "Suc pix < length ps"
      by (auto split: if_splits)
    let ?ps1 = "ps[Suc pix := (ps ! Suc pix)\<lparr>is_count := True\<rparr>]"
    from True l Cons.prems obtain pre1 where r: "out_string_loop rest ?ps1 pre1 = (Inr pre', ps')"
      by (auto simp: Let_def)
    from out_string_loop_marks [of ?ps1 rest pre1] r have m: "marks ?ps1 ps'"
      by simp
    have c: "is_count (?ps1 ! Suc pix)"
      using l by simp
    from marks_keeps_count [OF m _ c] l have h: "is_count (ps' ! Suc pix)"
      by simp
    have o: "\<And>j. j < length ps \<Longrightarrow> is_out_string (?ps1 ! j) = is_out_string (ps ! j)"
      by (rule marks_out_string [OF marks_step [OF True l]])
    from Cons.IH [OF r] have
      ih: "\<forall>j \<in> set rest. is_out_string (?ps1 ! j) \<longrightarrow> Suc j < length ps \<and> is_count (ps' ! Suc j)"
      by simp
    show ?thesis
    proof
      fix j
      assume j: "j \<in> set (pix # rest)"
      show "is_out_string (ps ! j) \<longrightarrow> Suc j < length ps \<and> is_count (ps' ! Suc j)"
      proof (cases "j = pix")
        case True
        with l h show ?thesis by simp
      next
        case False
        with j have jr: "j \<in> set rest" by simp
        show ?thesis
        proof
          assume oj: "is_out_string (ps ! j)"
          show "Suc j < length ps \<and> is_count (ps' ! Suc j)"
          proof (cases "j < length ps")
            case True
            with o [of j] oj ih jr show ?thesis by simp
          next
            case False
            with l have "?ps1 ! j = ps ! j"
              by (intro nth_list_update_neq) simp
            with oj ih jr show ?thesis by simp
          qed
        qed
      qed
    qed
  qed
qed


lemma out_string_loop_extends:
  "out_string_loop idxs ps pre = (Inr pre', ps') \<Longrightarrow> \<exists>ext. pre' = pre @ ext"
proof (induction idxs arbitrary: ps pre)
  case Nil
  then show ?case by simp
next
  case (Cons pix rest)
  show ?case
  proof (cases "is_out_string (ps ! pix)")
    case False
    with Cons.prems have "out_string_loop rest ps pre = (Inr pre', ps')"
      by simp
    then show ?thesis
      by (rule Cons.IH)
  next
    case True
    with Cons.prems have l: "Suc pix < length ps"
      by (auto split: if_splits)
    with True Cons.prems obtain ps1 x where "out_string_loop rest ps1 (pre @ x) = (Inr pre', ps')"
      by (auto simp: Let_def)
    from Cons.IH [OF this] show ?thesis
      by auto
  qed
qed

lemma out_string_loop_probe:
  assumes "out_string_loop idxs ps pre = (Inr pre', ps')" "i \<in> set idxs" "is_out_string (ps ! i)"
    and "\<forall>j \<in> set idxs. j < length ps"
  shows "\<exists>before after q. Suc i < length ps \<and> marks ps q
     \<and> pre' = pre @ before
          @ probe_block (name (ps ! Suc i)) (join '', '' (probe_args i 0 q)) (name (ps ! i)) @ after"
  using assms
proof (induction idxs arbitrary: ps pre)
  case Nil
  then show ?case by simp
next
  case (Cons pix rest)
  let ?ps1 = "ps[Suc pix := (ps ! Suc pix)\<lparr>is_count := True\<rparr>]"
  show ?case
  proof (cases "is_out_string (ps ! pix)")
    case False
    with Cons.prems have r: "out_string_loop rest ps pre = (Inr pre', ps')" and "i \<in> set rest"
      by auto
    from Cons.IH [OF r this(2) Cons.prems(3)] Cons.prems(4) show ?thesis
      by simp
  next
    case True
    with Cons.prems have l: "Suc pix < length ps"
      by (auto split: if_splits)
    let ?x = "probe_block (name (?ps1 ! Suc pix)) (join '', '' (probe_args pix 0 ?ps1)) (name (ps ! pix))"
    from True l Cons.prems have r: "out_string_loop rest ?ps1 (pre @ ?x) = (Inr pre', ps')"
      by (simp add: Let_def)
    have m1: "marks ps ?ps1"
      by (rule marks_step [OF True l])
    show ?thesis
    proof (cases "i = pix")
      case True
      from out_string_loop_extends [OF r] obtain ext where "pre' = (pre @ ?x) @ ext"
        by blast
      then have "pre' = pre @ [] @ probe_block (name (ps ! Suc i)) (join '', '' (probe_args i 0 ?ps1))
          (name (ps ! i)) @ ext"
        using True l by simp
      with l True m1 show ?thesis
        by blast
    next
      case False
      with Cons.prems have ir: "i \<in> set rest" and il: "i < length ps"
        by auto
      have o: "is_out_string (?ps1 ! i)"
        using marks_out_string [OF m1 il] Cons.prems(3) by simp
      have "\<forall>j \<in> set rest. j < length ?ps1"
        using Cons.prems(4) by simp
      from Cons.IH [OF r ir o this] obtain before after q where
        q: "Suc i < length ?ps1" "marks ?ps1 q"
        "pre' = (pre @ ?x) @ before
          @ probe_block (name (?ps1 ! Suc i)) (join '', '' (probe_args i 0 q)) (name (?ps1 ! i)) @ after"
        by blast
      have n: "name (?ps1 ! Suc i) = name (ps ! Suc i)" "name (?ps1 ! i) = name (ps ! i)"
        using l by (simp_all add: nth_list_update)
      from q(3) have "pre' = pre @ (?x @ before)
          @ probe_block (name (ps ! Suc i)) (join '', '' (probe_args i 0 q)) (name (ps ! i)) @ after"
        unfolding n by simp
      moreover from q(1) have "Suc i < length ps"
        by simp
      moreover from marks_trans [OF m1 q(2)] have "marks ps q" .
      ultimately show ?thesis
        by blast
    qed
  qed
qed

lemma param_loop_eq:
  "param_loop ps (a, b, c, d, e) =
     (a @ map the (filter truthy (map input_param_name ps)),
      b @ filter (\<lambda>x. x \<noteq> []) (map call_param_name ps),
      c @ map the (filter truthy (map return_param_name ps)),
      d @ concat (map pre_call_block ps),
      e @ concat (map post_call_block ps))"
  by (induction ps arbitrary: a b c d e) auto

lemma probe_args_eq:
  "probe_args pix j ps =
     concat (map (\<lambda>k. if j + k = pix then [''None''] else if j + k = Suc pix then [''0'']
        else if call_param_name (ps ! k) \<noteq> [] then [call_param_name (ps ! k)] else [])
       [0..<length ps])"
proof -
  define F where "F = (\<lambda>j ps k. if j + k = pix then [''None''] else if j + k = Suc pix then [''0'']
        else if call_param_name (ps ! k) \<noteq> [] then [call_param_name (ps ! k)] else [])"
  have "probe_args pix j ps = concat (map (F j ps) [0..<length ps])"
  proof (induction ps arbitrary: j)
    case Nil
    show ?case by simp
  next
    case (Cons p ps)
    have u: "[0..<length (p # ps)] = 0 # map Suc [0..<length ps]"
      by (simp only: map_Suc_upt list.size) (simp add: upt_rec)
    have 1: "probe_args pix j (p # ps) = F j (p # ps) 0 @ probe_args pix (Suc j) ps"
      by (simp add: F_def)
    have 2: "\<And>k. F j (p # ps) (Suc k) = F (Suc j) ps k"
      by (simp add: F_def)
    have "concat (map (F j (p # ps)) [0..<length (p # ps)])
        = F j (p # ps) 0 @ concat (map (\<lambda>k. F j (p # ps) (Suc k)) [0..<length ps])"
      unfolding u by (simp add: comp_def del: upt_Suc)
    also have "\<dots> = F j (p # ps) 0 @ concat (map (F (Suc j) ps) [0..<length ps])"
      by (simp only: 2)
    finally show ?case
      using 1 Cons.IH [of "Suc j"] by simp
  qed
  then show ?thesis
    by (simp add: F_def)
qed


subsection \<open>Dedenting a block of lines\<close>

lemma split_on_no_sep: "sep \<notin> set a \<Longrightarrow> split_on sep a = [a]"
  by (induction a) auto

lemma split_on_append:
  "sep \<notin> set a \<Longrightarrow> split_on sep (a @ sep # rest) = a # split_on sep rest"
  by (induction a) auto

lemma split_on_lines:
  "\<forall>l \<in> set ls. sep \<notin> set l \<Longrightarrow> sep \<notin> set z
     \<Longrightarrow> split_on sep (concat (map (\<lambda>l. l @ [sep]) ls) @ z) = ls @ [z]"
  by (induction ls) (simp_all add: split_on_no_sep split_on_append)

lemma join_lines: "join [sep] (ls @ [[]]) = concat (map (\<lambda>l. l @ [sep]) ls)"
proof (induction ls)
  case Nil
  show ?case by simp
next
  case (Cons l ls)
  obtain y ys where "ls @ [[]] = y # ys"
    by (cases "ls @ [[]]") auto
  with Cons show ?case
    by simp
qed

lemma startswith_iff: "startswith s p \<longleftrightarrow> (\<exists>r. s = p @ r)"
proof
  assume "startswith s p"
  then have "s = p @ drop (length p) s"
    unfolding startswith_def by (metis append_take_drop_id)
  then show "\<exists>r. s = p @ r" ..
next
  assume "\<exists>r. s = p @ r"
  then show "startswith s p"
    by (auto simp: startswith_def)
qed

lemma common_prefix_startswith:
  "startswith a p \<Longrightarrow> startswith b p \<Longrightarrow> startswith (common_prefix a b) p"
proof (induction p arbitrary: a b)
  case Nil
  show ?case by (simp add: startswith_def)
next
  case (Cons x p)
  from Cons.prems obtain a' b' where ab: "a = x # a'" "b = x # b'" "startswith a' p" "startswith b' p"
    by (auto simp: startswith_iff)
  from Cons.IH [OF ab(3,4)] show ?case
    by (auto simp: ab startswith_iff)
qed

lemma dedent_margin_keep:
  "\<forall>x \<in> set xs. startswith x mg \<Longrightarrow> dedent_margin (Some mg) xs = Some mg"
  by (induction xs) auto

lemma dedent_margin_exact:
  assumes "\<forall>x \<in> set xs. startswith x mg" "mg \<in> set xs"
    and "m = None \<or> (\<exists>y. m = Some y \<and> startswith y mg)"
  shows "dedent_margin m xs = Some mg"
  using assms
proof (induction xs arbitrary: m)
  case Nil
  then show ?case by simp
next
  case (Cons x xs)
  let ?m' = "case m of None \<Rightarrow> Some x
      | Some y \<Rightarrow> if startswith x y then Some y else if startswith y x then Some x
          else Some (common_prefix y x)"
  have step: "dedent_margin m (x # xs) = dedent_margin ?m' xs"
    by simp
  from Cons.prems have x: "startswith x mg" and xs: "\<forall>x \<in> set xs. startswith x mg"
    by auto
  have p: "\<exists>y. ?m' = Some y \<and> startswith y mg"
    using Cons.prems(3) x by (auto simp: common_prefix_startswith split: option.splits)
  show ?case
  proof (cases "x = mg")
    case True
    have "?m' = Some mg"
    proof (cases m)
      case None
      with True show ?thesis by simp
    next
      case (Some y)
      with Cons.prems(3) have y: "startswith y mg"
        by simp
      show ?thesis
      proof (cases "startswith x y")
        case True
        with \<open>x = mg\<close> y have "y = mg"
          by (auto simp: startswith_iff)
        with Some True show ?thesis by simp
      next
        case False
        with Some y \<open>x = mg\<close> show ?thesis by simp
      qed
    qed
    then show ?thesis
      unfolding step using dedent_margin_keep [OF xs] by simp
  next
    case False
    with Cons.prems(2) have "mg \<in> set xs"
      by simp
    from Cons.IH [OF xs this] p show ?thesis
      unfolding step by blast
  qed
qed

lemma blank_spaces: "list_all blank (spaces n)"
  by (simp add: spaces_def blank_def list_all_iff)

lemma list_all_blank_spaces: "list_all blank (spaces n @ l) = list_all blank l"
  using blank_spaces [of n] by simp

lemma blank_space: "blank (CHR '' '')"
  by (simp add: blank_def)

lemma takeWhile_blank_spaces: "takeWhile blank (spaces n @ l) = spaces n @ takeWhile blank l"
  unfolding spaces_def by (induction n) (simp_all add: blank_space)

lemma dropWhile_blank_spaces: "dropWhile blank (spaces n @ l) = dropWhile blank l"
  unfolding spaces_def by (induction n) (simp_all add: blank_space)

lemma newline_not_blank: "\<not> blank newline"
  by (simp add: blank_def newline_def)

lemma dedent_block:
  assumes nl: "\<forall>l \<in> set ls. newline \<notin> set l"
    and content: "\<forall>l \<in> set ls. \<not> list_all blank l"
    and exact: "\<exists>l \<in> set ls. \<not> blank (hd l)"
    and n: "0 < n"
  shows "dedent (concat (map (\<lambda>l. spaces n @ l @ [newline]) ls) @ spaces k)
     = concat (map (\<lambda>l. l @ [newline]) ls)"
proof -
  let ?norm = "\<lambda>l. if l \<noteq> [] \<and> list_all blank l then [] else l"
  let ?text = "concat (map (\<lambda>l. spaces n @ l @ [newline]) ls) @ spaces k"
  let ?full = "map (\<lambda>l. spaces n @ l) ls"
  have t: "?text = concat (map (\<lambda>l. l @ [newline]) ?full) @ spaces k"
    by (simp add: comp_def)
  have "\<forall>l \<in> set ?full. newline \<notin> set l"
    using nl by (auto simp: spaces_def newline_def)
  moreover have "newline \<notin> set (spaces k)"
    by (auto simp: spaces_def newline_def)
  ultimately have sp: "split_on newline ?text = ?full @ [spaces k]"
    unfolding t by (rule split_on_lines)
  have nf: "map ?norm ?full = ?full"
    using content by (auto simp: list_all_iff)
  have nk: "?norm (spaces k) = []"
    using blank_spaces [of k] by simp
  have lines: "map ?norm (split_on newline ?text) = ?full @ [[]]"
    unfolding sp using nf nk by simp
  have ne: "\<And>l. l \<in> set ls \<Longrightarrow> dropWhile blank l \<noteq> []"
    using content by (auto simp: list_all_iff)
  have "filter (\<lambda>l. dropWhile blank l \<noteq> []) (?full @ [[]]) = ?full"
    using ne by (auto simp: dropWhile_blank_spaces filter_id_conv)
  then have indents: "map (takeWhile blank) (filter (\<lambda>l. dropWhile blank l \<noteq> []) (?full @ [[]]))
      = map (\<lambda>l. spaces n @ takeWhile blank l) ls"
    by (simp add: takeWhile_blank_spaces comp_def)
  have all: "\<forall>x \<in> set (map (\<lambda>l. spaces n @ takeWhile blank l) ls). startswith x (spaces n)"
    by (auto simp: startswith_iff)
  from exact obtain l0 where l0: "l0 \<in> set ls" "\<not> blank (hd l0)"
    by blast
  from content l0(1) have "l0 \<noteq> []"
    by auto
  with l0(2) have "takeWhile blank l0 = []"
    by (cases l0) auto
  with l0(1) have mem: "spaces n \<in> set (map (\<lambda>l. spaces n @ takeWhile blank l) ls)"
    by force
  have margin: "dedent_margin None (map (\<lambda>l. spaces n @ takeWhile blank l) ls) = Some (spaces n)"
    by (rule dedent_margin_exact [OF all mem]) simp
  have ns: "spaces n \<noteq> []"
    using n by (simp add: spaces_def)
  have strip_all: "map (\<lambda>l. if startswith l (spaces n) then drop (length (spaces n)) l else l)
      (?full @ [[]]) = ls @ [[]]"
    using ns by (auto simp: startswith_def comp_def map_idI)
  show ?thesis
    unfolding dedent_def Let_def lines indents margin
    using ns strip_all by (simp add: join_lines)
qed


subsection \<open>The text of a rendered method\<close>

lemma probe_block_text:
  assumes "newline \<notin> set len_name" "newline \<notin> set param_list" "newline \<notin> set p_name"
  shows "probe_block len_name param_list p_name =
     len_name @ '' = fn('' @ param_list @ '')'' @ [newline]
     @ ''if '' @ len_name @ '' == 0:'' @ [newline]
     @ ''    return b'' @ [CHR 0x27, CHR 0x27] @ [newline]
     @ p_name @ '' = ctypes.create_string_buffer('' @ len_name @ '')'' @ [newline]"
proof -
  let ?ls = "[len_name @ '' = fn('' @ param_list @ '')'',
              ''if '' @ len_name @ '' == 0:'',
              spaces 4 @ ''return b'' @ [CHR 0x27, CHR 0x27],
              p_name @ '' = ctypes.create_string_buffer('' @ len_name @ '')'']"
  have s: "spaces 24 = spaces 20 @ spaces 4"
    by (simp add: spaces_def replicate_add [symmetric])
  have "probe_block len_name param_list p_name
      = dedent (concat (map (\<lambda>l. spaces 20 @ l @ [newline]) ?ls) @ spaces 16)"
    by (simp add: probe_block_def s)
  also have "\<dots> = concat (map (\<lambda>l. l @ [newline]) ?ls)"
  proof (rule dedent_block)
    show "\<forall>l \<in> set ?ls. newline \<notin> set l"
      using assms by (simp add: newline_def spaces_def)
    show "\<forall>l \<in> set ?ls. \<not> list_all blank l"
      by (simp add: blank_def)
    show "\<exists>l \<in> set ?ls. \<not> blank (hd l)"
      by (simp add: blank_def)
    show "0 < (20::nat)"
      by simp
  qed
  also have "\<dots> = len_name @ '' = fn('' @ param_list @ '')'' @ [newline]
     @ ''if '' @ len_name @ '' == 0:'' @ [newline]
     @ ''    return b'' @ [CHR 0x27, CHR 0x27] @ [newline]
     @ p_name @ '' = ctypes.create_string_buffer('' @ len_name @ '')'' @ [newline]"
    by (simp add: spaces_def eval_nat_numeral)
  finally show ?thesis .
qed

lemma post_call_block_text:
  assumes "is_error p" "newline \<notin> set (name p)"
  shows "post_call_block p =
     ''if '' @ name p @ ''.value != 0:'' @ [newline]
     @ ''    raise OpenVRError(str('' @ name p @ ''))'' @ [newline]"
proof -
  let ?ls = "[''if '' @ name p @ ''.value != 0:'',
              spaces 4 @ ''raise OpenVRError(str('' @ name p @ ''))'']"
  have s: "spaces 20 = spaces 16 @ spaces 4"
    by (simp add: spaces_def replicate_add [symmetric])
  have "post_call_block p = dedent (concat (map (\<lambda>l. spaces 16 @ l @ [newline]) ?ls) @ spaces 12)"
    using assms(1) by (simp add: post_call_block_def s)
  also have "\<dots> = concat (map (\<lambda>l. l @ [newline]) ?ls)"
  proof (rule dedent_block)
    show "\<forall>l \<in> set ?ls. newline \<notin> set l"
      using assms by (simp add: newline_def spaces_def)
    show "\<forall>l \<in> set ?ls. \<not> list_all blank l"
      by (simp add: blank_def)
    show "\<exists>l \<in> set ?ls. \<not> blank (hd l)"
      by (simp add: blank_def)
    show "0 < (16::nat)"
      by simp
  qed
  also have "\<dots> = ''if '' @ name p @ ''.value != 0:'' @ [newline]
     @ ''    raise OpenVRError(str('' @ name p @ ''))'' @ [newline]"
    by (simp add: spaces_def eval_nat_numeral)
  finally show ?thesis .
qed

lemma ctypes_string_snd:
  "snd (ctypes_string m)
     = m\<lparr>parameters := snd (out_string_loop [0..<length (parameters m)] (parameters m) [])\<rparr>"
  by (auto simp: ctypes_string_def Let_def split: prod.splits sum.splits list.splits)

lemma ctypes_string_InrD:
  assumes "fst (ctypes_string m) = Inr text"
  shows "\<exists>pre ps c cs. out_string_loop [0..<length (parameters m)] (parameters m) [] = (Inr pre, ps)
     \<and> name m = c # cs"
  using assms
  by (auto simp: ctypes_string_def Let_def split: prod.splits sum.splits list.splits)

lemma ctypes_string_Inr:
  assumes "out_string_loop [0..<length (parameters m)] (parameters m) [] = (Inr pre, ps)"
    and "name m = c # cs"
    and ins: "ins = ''self'' # map the (filter truthy (map input_param_name ps))"
    and calls: "calls = filter (\<lambda>x. x \<noteq> []) (map call_param_name ps)"
    and outs: "outs = (if has_return m then [''result''] else [])
        @ map the (filter truthy (map return_param_name ps))"
    and doc: "doc = (if truthy (docstring m)
        then triple_quote @ the (docstring m) @ triple_quote @ [newline, newline] else [])"
    and blocks: "pre_blocks = concat (map pre_call_block ps)"
      "post_blocks = concat (map post_call_block ps)"
  shows "ctypes_string m =
    (Inr (''def '' @ (lower_char c # cs) @ ''('' @ join '', '' ins @ ''):'' @ [newline]
          @ indent
             (doc
              @ ''fn = self.function_table.'' @ (lower_char c # cs) @ [newline]
              @ pre
              @ pre_blocks
              @ (if has_return (m\<lparr>parameters := ps\<rparr>)
                 then ''result = fn('' @ join '', '' calls @ '')'' @ [newline]
                 else ''fn('' @ join '', '' calls @ '')'' @ [newline])
              @ post_blocks
              @ (if outs \<noteq> [] then ''return '' @ join '', '' outs @ [newline] else []))
             (spaces 4)),
     m\<lparr>parameters := ps\<rparr>)"
proof -
  have pl: "param_loop ps ([''self''], [], if has_return m then [''result''] else [], pre, [])
      = (ins, calls, outs, pre @ pre_blocks, post_blocks)"
    by (simp add: param_loop_eq ins calls outs blocks)
  have d: "docstring (m\<lparr>parameters := ps\<rparr>) = docstring m"
    by simp
  show ?thesis
    unfolding ctypes_string_def Let_def assms(1) prod.case sum.case pl d doc
    using assms(2)
    by (cases "truthy (docstring m)"; cases "has_return (m\<lparr>parameters := ps\<rparr>)") simp_all
qed

lemma example_string_method_render:
  "ctypes_string example_string_method =
     (Inr example_string_text,
      example_string_method\<lparr>parameters := [example_out_string, example_length\<lparr>is_count := True\<rparr>]\<rparr>)"
  by code_simp


section \<open>The claims\<close>

text \<open>
  C1, as the source has it. \<^verbatim>\<open>translate_type\<close> ends on every input string, either
  value of \<^verbatim>\<open>bracket\<close> and every depth \<open>d\<close> of stack left: the bound
  \<open>2 * weight s + 2\<close> on the number of calls and loop iterations is never hit, and the
  call either returns the string \<open>translate_type s b\<close> or raises \<^verbatim>\<open>RecursionError\<close>.
  It returns the string whenever more nested activations fit on the stack than \<open>s\<close> has
  characters among \<^verbatim>\<open>*\<close>, \<^verbatim>\<open>&\<close>, \<^verbatim>\<open>[\<close>, \<^verbatim>\<open>t\<close> and \<^verbatim>\<open>s\<close> (the weight of \<open>s\<close>): every
  recursive call is on a string of smaller weight. Each of the two rewrite loops, started
  on any string, stops after at most \<open>2 * weight x\<close> iterations on a string its pattern
  no longer matches.
\<close>

theorem translate_type_within_stack:
  "(\<exists>v. translate_stack (2 * weight s + 2) d s b = Some v \<and> translate_type_stack d s b = v
       \<and> (v = Inr (translate_type s b) \<or> v = Inl RecursionError))
   \<and> (weight s < d \<longrightarrow> translate_type_stack d s b = Inr (translate_type s b))
   \<and> (\<exists>r. translate_fuel (2 * weight s + 2) s b = Some r \<and> translate_type s b = r)
   \<and> (\<exists>r. rewrite_loop (2 * weight x + 1) rx_pointer x = Some r \<and> re_match rx_pointer r = None)
   \<and> (\<exists>r. rewrite_loop (2 * weight x + 1) rx_ptr x = Some r \<and> re_match rx_ptr r = None)"
proof (intro conjI impI)
  show "\<exists>v. translate_stack (2 * weight s + 2) d s b = Some v \<and> translate_type_stack d s b = v
       \<and> (v = Inr (translate_type s b) \<or> v = Inl RecursionError)"
    by (rule translate_type_stack_cases)
  show "translate_type_stack d s b = Inr (translate_type s b)" if "weight s < d"
    using that by (rule translate_type_stack_enough)
  from translate_fuel_total [of s b] obtain r where "translate_fuel (2 * weight s + 2) s b = Some r"
    by blast
  then show "\<exists>r. translate_fuel (2 * weight s + 2) s b = Some r \<and> translate_type s b = r"
    by (simp add: translate_type_def)
  show "\<exists>r. rewrite_loop (2 * weight x + 1) rx_pointer x = Some r \<and> re_match rx_pointer r = None"
    by (rule rewrite_loop_total) simp
  show "\<exists>r. rewrite_loop (2 * weight x + 1) rx_ptr x = Some r \<and> re_match rx_ptr r = None"
    by (rule rewrite_loop_total) simp
qed

theorem translate_type_within_stack_witness:
  "weight ''int**'' < 4
   \<and> translate_type_stack 4 ''int**'' False = Inr ''POINTER(POINTER(c_int))''"
proof -
  have w: "weight ''int**'' < 4"
    by (simp add: weight_def)
  have r: "''int'' \<in> set primitive_roots"
    by (simp add: primitive_roots_def)
  have "translate_type (''int'' @ replicate 2 (CHR ''*'')) False = pointers 2 (''c_'' @ ''int'')"
    by (rule root_stars_translate_type [OF r]) simp
  then have t: "translate_type ''int**'' False = ''POINTER(POINTER(c_int))''"
    by (simp add: eval_nat_numeral)
  from translate_type_within_stack [of "''int**''" 4 False "[]"] w t show ?thesis
    by simp
qed

text \<open>
  C1, as the claim states it, fails: the recursion is as deep as the chain of markers is
  long, and the interpreter's stack is bounded. No more than 1000 activations fit under
  the default limit, and \<^verbatim>\<open>'a' + '&' * 1001\<close> needs 1001 of them, one for each
  ampersand: the call raises \<^verbatim>\<open>RecursionError\<close>.
\<close>

theorem translate_type_recursion_counterexample:
  "translate_type_stack 1000 (CHR ''a'' # replicate 1001 (CHR ''&'')) False = Inl RecursionError"
  using ampersands_recursion_error [of 1000 1001 False] by (simp add: ampersands_def)

text \<open>
  C2, as the source has it. For every primitive root \<open>t\<close> of the pattern
  \<^verbatim>\<open>^(float|u?int|double|u?char|u?short|u?long)\<close> and every \<open>N\<close>, except \<^verbatim>\<open>char\<close> with
  exactly one star, \<open>t\<close> followed by \<open>N\<close> stars translates to \<open>N\<close> nested \<^verbatim>\<open>POINTER(...)\<close>
  wrappers around the translation of \<open>t\<close>.
\<close>

theorem pointer_fixpoint:
  assumes "t \<in> set primitive_roots" and "\<not> (t = ''char'' \<and> N = 1)"
  shows "translate_type (t @ replicate N (CHR ''*'')) False = pointers N (translate_type t False)"
proof -
  have "translate_type t False = ''c_'' @ t"
    using root_stars_translate_type [OF assms(1), of 0] by simp
  with root_stars_translate_type [OF assms] show ?thesis
    by simp
qed

theorem pointer_fixpoint_witness:
  "''int'' \<in> set primitive_roots
   \<and> translate_type ''int***'' False = ''POINTER(POINTER(POINTER(c_int)))''"
proof -
  have r: "''int'' \<in> set primitive_roots"
    by (simp add: primitive_roots_def)
  have t: "translate_type ''int'' False = ''c_int''"
    using root_stars_translate_type [OF r, of 0] by simp
  from pointer_fixpoint [OF r, of 3] r t show ?thesis
    by (simp add: eval_nat_numeral)
qed

text \<open>
  C2, as the claim states it, fails for \<^verbatim>\<open>char\<close> with one star: the byte-string rule
  comes before the pointer rule and gives \<^verbatim>\<open>c_char_p\<close>, not \<^verbatim>\<open>POINTER(c_char)\<close>.
\<close>

theorem pointer_fixpoint_counterexample:
  "translate_type (''char'' @ replicate 1 (CHR ''*'')) False = ''c_char_p''
   \<and> pointers 1 (translate_type ''char'' False) = ''POINTER(c_char)''"
  by code_simp





text \<open>
  C3. \<^verbatim>\<open>translate_type("float[3]")\<close> is \<^verbatim>\<open>c_float * 3\<close>, and \<^verbatim>\<open>translate_type("float[3][4]")\<close>
  is \<^verbatim>\<open>(c_float * 4) * 3\<close>: the outer dimension 3 is peeled first and the rest,
  translated in bracket mode, yields the parenthesised inner array of 4.
\<close>

theorem array_composition:
  "translate_type ''float[3]'' False = ''c_float * 3''
   \<and> translate_type ''float[3][4]'' False = ''(c_float * 4) * 3''
   \<and> translate_type ''c_float[4]'' True = ''(c_float * 4)''"
  by code_simp

text \<open>
  C5, as the source has it. \<^verbatim>\<open>has_return()\<close> is false exactly when the return type is
  \<^verbatim>\<open>void\<close> or some parameter is an output string.
\<close>

theorem has_return_false_iff:
  "has_return m = False \<longleftrightarrow> (mtype m = ''void'' \<or> (\<exists>p \<in> set (parameters m). is_out_string p))"
  by (simp add: has_return_def has_return_loop_iff)

theorem has_return_false_iff_witness:
  "has_return example_string_method = False
   \<and> is_out_string example_out_string
   \<and> example_out_string \<in> set (parameters example_string_method)"
  using has_return_false_iff [of example_string_method]
  by (simp add: example_string_method_def example_out_string_def is_out_string_def
      Parameter_init_def truthy_def)

text \<open>
  C5, as the claim states it, fails: a method that returns \<^verbatim>\<open>uint32_t\<close> and has an
  output-string parameter has no return expression, although its return type is not
  \<^verbatim>\<open>void\<close>.
\<close>

theorem has_return_counterexample:
  "has_return example_string_method = False \<and> mtype example_string_method \<noteq> ''void''"
  by (simp add: has_return_def example_string_method_def example_out_string_def
      is_out_string_def Parameter_init_def truthy_def)

text \<open>
  C8. A count parameter is neither an output nor an input, and \<^verbatim>\<open>is_output\<close> holds
  exactly for a parameter that is not a count, has a pointer type, and whose pointee is
  neither const-qualified nor \<^verbatim>\<open>void\<close>.
\<close>

theorem classification_consistent:
  "(is_count p \<longrightarrow> \<not> is_output p \<and> \<not> is_input p)
   \<and> (is_output p \<longleftrightarrow>
        \<not> is_count p \<and> kind (ptype p) = POINTER
        \<and> \<not> is_const_qualified (get_pointee (ptype p))
        \<and> kind (get_pointee (ptype p)) \<noteq> VOID)"
  by (simp add: is_output_def is_input_def Let_def)

theorem classification_consistent_witness:
  "is_count example_count \<and> \<not> is_output example_count \<and> \<not> is_input example_count"
proof -
  have c: "is_count example_count"
    by (simp add: example_count_def)
  from classification_consistent [of example_count] c show ?thesis
    by blast
qed

text \<open>
  C10. The constructor stores the name \<^verbatim>\<open>type\<close> as \<^verbatim>\<open>type_\<close> and every other name
  unchanged, and the signature, call-site and return-site fragments of a parameter are
  built from the stored name.
\<close>

theorem parameter_name_stored:
  "name (Parameter_init n t d doc a) = (if n = ''type'' then ''type_'' else n)
   \<and> input_param_name p \<in> {None, Some (name p), Some (name p @ ''='' @ the (default_value p))}
   \<and> call_param_name p \<in> {name p @ ''Arg'', name p, ''byref('' @ name p @ '')''}
   \<and> return_param_name p \<in>
        {None, Some (''bytes('' @ name p @ ''.value)''), Some (name p), Some (name p @ ''.value'')}"
  by (simp add: Parameter_init_def input_param_name_def call_param_name_def
      return_param_name_def Let_def)

theorem parameter_name_stored_witness:
  "name (Parameter_init ''type'' uint32_type None None None) = ''type_''
   \<and> name (Parameter_init ''eType'' uint32_type None None None) = ''eType''
   \<and> call_param_name (Parameter_init ''type'' uint32_type None None None) = ''type_''"
proof -
  have "call_param_name (Parameter_init ''type'' uint32_type None None None) = ''type_''"
    by (simp add: call_param_name_def Parameter_init_def is_array_def is_out_string_def
        is_output_def truthy_def uint32_type_def)
  with parameter_name_stored [of "''type''" uint32_type None None None]
    parameter_name_stored [of "''eType''" uint32_type None None None]
  show ?thesis
    by simp
qed

end
